theory Spec2Isabelle
  imports Main
begin

section \<open>The attributed graph store\<close>

text \<open>
  The program works on graphs of the cgraph library through node handles
  (\<open>Agnode_t *\<close>) and edge handles (\<open>Agedge_t *\<close>). The store is modelled
  as the capability interface the specification describes: an attributed directed
  multigraph with node and edge creation, deletion and iteration and string-keyed
  attributes. A node handle is the node's sequence number, by which cgraph orders the
  nodes of a graph; an edge handle is the edge itself, ordered by its sequence number
  among the out-edges of its tail.
\<close>

datatype error = AssertFailed | UseAfterDelete | NullDeref

type_synonym attrs = "(string \<times> string) list"

record node =
  nseq :: nat
  nname :: string
  nattrs :: attrs

record edge =
  eseq :: nat
  etail :: nat
  ehead :: nat
  eattrs :: attrs

record graph =
  nodes :: "node list"
  edges :: "edge list"

text \<open>The least sequence number of a list, \<open>None\<close> for the empty list (a NULL handle).\<close>

fun least :: "nat list \<Rightarrow> nat option" where
  "least [] = None"
| "least (x # xs) = (case least xs of None \<Rightarrow> Some x | Some y \<Rightarrow> Some (min x y))"

fun least_edge :: "edge list \<Rightarrow> edge option" where
  "least_edge [] = None"
| "least_edge (e # es) =
     (case least_edge es of None \<Rightarrow> Some e
      | Some e' \<Rightarrow> if eseq e \<le> eseq e' then Some e else Some e')"

definition node_ids :: "graph \<Rightarrow> nat list" where
  "node_ids g = map nseq (nodes g)"

definition live :: "graph \<Rightarrow> nat \<Rightarrow> bool" where
  "live g n = (n \<in> set (node_ids g))"

text \<open>Modelled from the spec: \<open>iterate_nodes\<close> (cgraph's agfstnode and agnxtnode), in
  sequence order. A handle of a deleted node is dangling: using it is an error.\<close>

definition agfstnode :: "graph \<Rightarrow> nat option" where
  "agfstnode g = least (node_ids g)"

definition nxt_of :: "graph \<Rightarrow> nat \<Rightarrow> nat option" where
  "nxt_of g n = least (filter (\<lambda>m. n < m) (node_ids g))"

definition agnxtnode :: "graph \<Rightarrow> nat \<Rightarrow> error + nat option" where
  "agnxtnode g n = (if live g n then Inr (nxt_of g n) else Inl UseAfterDelete)"

text \<open>Modelled from the spec: \<open>iterate_outgoing_edges\<close> (cgraph's agfstout and
  agnxtout), the out-edges of one tail node in sequence order.\<close>

definition agfstout :: "graph \<Rightarrow> nat \<Rightarrow> error + edge option" where
  "agfstout g n =
     (if live g n then Inr (least_edge (filter (\<lambda>e. etail e = n) (edges g)))
      else Inl UseAfterDelete)"

definition agnxtout :: "graph \<Rightarrow> edge \<Rightarrow> error + edge option" where
  "agnxtout g e =
     (if e \<in> set (edges g)
      then Inr (least_edge (filter (\<lambda>e'. etail e' = etail e \<and> eseq e < eseq e') (edges g)))
      else Inl UseAfterDelete)"

definition aghead :: "edge \<Rightarrow> nat" where
  "aghead e = ehead e"

text \<open>Modelled from the spec: \<open>get_attribute\<close> and \<open>set_attribute\<close> (cgraph's agget
  and agset). A missing attribute is \<open>None\<close> (a NULL string).\<close>

definition find_node :: "graph \<Rightarrow> nat \<Rightarrow> node option" where
  "find_node g n = find (\<lambda>x. nseq x = n) (nodes g)"

definition agget :: "graph \<Rightarrow> nat \<Rightarrow> string \<Rightarrow> error + string option" where
  "agget g n name =
     (case find_node g n of None \<Rightarrow> Inl UseAfterDelete
      | Some x \<Rightarrow> Inr (map_of (nattrs x) name))"

definition agget_edge :: "edge \<Rightarrow> string \<Rightarrow> string option" where
  "agget_edge e name = map_of (eattrs e) name"

definition agset :: "graph \<Rightarrow> nat \<Rightarrow> string \<Rightarrow> string \<Rightarrow> graph" where
  "agset g n name v =
     g\<lparr>nodes := map (\<lambda>x. if nseq x = n then x\<lparr>nattrs := (name, v) # nattrs x\<rparr> else x)
                    (nodes g)\<rparr>"

text \<open>Modelled from the spec: \<open>delete_edge\<close>, \<open>delete_node\<close> and the degree of a node
  (cgraph's agdelete on an edge, agdelnode, and agdegree with both directions counted).
  Deleting a node takes its incident edges with it.\<close>

definition agdelete :: "graph \<Rightarrow> edge \<Rightarrow> error + graph" where
  "agdelete g e =
     (if e \<in> set (edges g) then Inr (g\<lparr>edges := filter (\<lambda>e'. e' \<noteq> e) (edges g)\<rparr>)
      else Inl UseAfterDelete)"

definition agdegree :: "graph \<Rightarrow> nat \<Rightarrow> error + nat" where
  "agdegree g n =
     (if live g n
      then Inr (length (filter (\<lambda>e. etail e = n) (edges g)) +
                length (filter (\<lambda>e. ehead e = n) (edges g)))
      else Inl UseAfterDelete)"

definition agdelnode :: "graph \<Rightarrow> nat \<Rightarrow> error + graph" where
  "agdelnode g n =
     (if live g n
      then Inr (g\<lparr>nodes := filter (\<lambda>x. nseq x \<noteq> n) (nodes g),
                  edges := filter (\<lambda>e. etail e \<noteq> n \<and> ehead e \<noteq> n) (edges g)\<rparr>)
      else Inl UseAfterDelete)"

subsection \<open>Facts about the iteration order\<close>

lemma least_edge_None [simp]: "least_edge es = None \<longleftrightarrow> es = []"
  by (induction es) (auto split: option.splits)

lemma least_edge_mem: "least_edge es = Some e \<Longrightarrow> e \<in> set es"
  by (induction es arbitrary: e) (auto split: option.splits if_splits)

lemma least_edge_le: "least_edge es = Some e \<Longrightarrow> x \<in> set es \<Longrightarrow> eseq e \<le> eseq x"
  by (induction es arbitrary: e) (fastforce split: option.splits if_splits)+

lemma least_None [simp]: "least xs = None \<longleftrightarrow> xs = []"
  by (induction xs) (auto split: option.splits)

lemma least_mem: "least xs = Some k \<Longrightarrow> k \<in> set xs"
  by (induction xs arbitrary: k) (auto split: option.splits if_splits simp: min_def)

lemma least_le: "least xs = Some k \<Longrightarrow> x \<in> set xs \<Longrightarrow> k \<le> x"
  by (induction xs arbitrary: k) (fastforce split: option.splits simp: min_def)+

lemma least_eqI:
  assumes k: "k \<in> set xs" and le: "\<And>x. x \<in> set xs \<Longrightarrow> k \<le> x"
  shows "least xs = Some k"
proof -
  from k obtain j where j: "least xs = Some j" by (cases "least xs") auto
  from least_mem [OF j] le have "k \<le> j" by blast
  moreover from least_le [OF j k] have "j \<le> k" .
  ultimately show ?thesis using j by simp
qed

lemma filter_measure_less:
  assumes "x \<in> set xs" and "Q x" and "\<not> P x" and "\<And>y. P y \<Longrightarrow> Q y"
  shows "length (filter P (filter R xs)) < length (filter Q xs)"
proof -
  have "length (filter P (filter R xs)) = length (filter R (filter P xs))"
    by (simp add: conj_commute)
  also have "\<dots> \<le> length (filter P xs)" by (rule length_filter_le)
  also have "filter P xs = filter P (filter Q xs)"
    using assms(4) by (auto intro: filter_cong)
  also have "length (filter P (filter Q xs)) < length (filter Q xs)"
    using assms(1-3) by (intro length_filter_less [of x]) auto
  finally show ?thesis .
qed

lemma agnxtout_Some:
  "agnxtout g e = Inr (Some e') \<Longrightarrow> e' \<in> set (edges g) \<and> etail e' = etail e \<and> eseq e < eseq e'"
  by (auto simp: agnxtout_def split: if_splits dest: least_edge_mem)

lemma edge_measure_step:
  assumes "e2 \<in> set es" and "eseq e < eseq e2" and "es' = filter R es"
  shows "length (filter (\<lambda>x. eseq e2 < eseq x) es') < length (filter (\<lambda>x. eseq e < eseq x) es)"
  unfolding assms(3) using assms(1,2)
  by (intro filter_measure_less [of e2]) auto

lemma agdelete_Inr:
  "agdelete g e = Inr g1 \<Longrightarrow>
     e \<in> set (edges g) \<and> edges g1 = filter (\<lambda>x. x \<noteq> e) (edges g) \<and> nodes g1 = nodes g"
  by (auto simp: agdelete_def split: if_splits)

lemma agdelnode_Inr:
  "agdelnode g n = Inr g1 \<Longrightarrow>
     live g n \<and> edges g1 = filter (\<lambda>x. etail x \<noteq> n \<and> ehead x \<noteq> n) (edges g) \<and>
     nodes g1 = filter (\<lambda>x. nseq x \<noteq> n) (nodes g)"
  by (auto simp: agdelnode_def split: if_splits)

section \<open>The Intra-Edge Reducer\<close>

text \<open>
  The inner loop of \<open>graph_remove_intra_edges\<close>, over the out-edges \<open>e\<close> of the
  current node, with the saved next outer node \<open>nxtnode\<close> and the flag \<open>isreduced\<close>
  as loop state. A failed assertion aborts; the use of a dangling handle, after which
  nothing is defined, ends the run with an error.
\<close>

function edge_loop ::
  "graph \<Rightarrow> string \<Rightarrow> edge option \<Rightarrow> nat option \<Rightarrow> bool \<Rightarrow> error + (graph \<times> nat option \<times> bool)"
where
  "edge_loop g file_n None nxtnode isreduced = Inr (g, nxtnode, isreduced)"
| "edge_loop g file_n (Some e) nxtnode isreduced =
     (case agnxtout g e of Inl err \<Rightarrow> Inl err
      | Inr nxtout \<Rightarrow>
     (case agget g (aghead e) ''file'' of Inl err \<Rightarrow> Inl err
      | Inr None \<Rightarrow> Inl AssertFailed
      | Inr (Some file_m) \<Rightarrow>
        if length file_n = 0 \<or> length file_m = 0 \<or> file_n \<noteq> file_m
        then edge_loop g file_n nxtout nxtnode isreduced
        else
     (case agdelete g e of Inl err \<Rightarrow> Inl err
      | Inr g1 \<Rightarrow>
     (case agdegree g1 (aghead e) of Inl err \<Rightarrow> Inl err
      | Inr d \<Rightarrow>
        if d > 0 then edge_loop g1 file_n nxtout nxtnode True
        else
     (case (if nxtnode = Some (aghead e) then agnxtnode g1 (aghead e) else Inr nxtnode) of
        Inl err \<Rightarrow> Inl err
      | Inr nxtnode' \<Rightarrow>
     (case agdelnode g1 (aghead e) of Inl err \<Rightarrow> Inl err
      | Inr g2 \<Rightarrow> edge_loop g2 file_n nxtout nxtnode' True))))))"
  by pat_completeness auto
termination
proof (relation "measure (\<lambda>(g, file_n, c, nxtnode, isreduced).
    case c of None \<Rightarrow> 0 | Some e \<Rightarrow> Suc (length (filter (\<lambda>x. eseq e < eseq x) (edges g))))",
    goal_cases)
  case 1
  show ?case by simp
next
  case (2 g file_n e nxtnode isreduced nxtout)
  then show ?case
    using edge_measure_step [where R = "\<lambda>x. True" and es = "edges g"]
    by (auto split: option.splits dest!: agnxtout_Some)
next
  case (3 g file_n e nxtnode isreduced nxtout fm file_m g1 d)
  from 3 have sub: "edges g1 = filter (\<lambda>x. x \<noteq> e) (edges g)"
    by (auto dest!: agdelete_Inr)
  show ?case
  proof (cases nxtout)
    case None
    then show ?thesis by simp
  next
    case (Some a)
    with 3 have "a \<in> set (edges g)" and "eseq e < eseq a"
      by (auto dest!: agnxtout_Some)
    from edge_measure_step [OF this sub] Some show ?thesis by simp
  qed
next
  case (4 g file_n e nxtnode isreduced nxtout fm file_m g1 d nxtnode' g2)
  from 4 have sub: "edges g2 =
      filter (\<lambda>x. x \<noteq> e \<and> etail x \<noteq> aghead e \<and> ehead x \<noteq> aghead e) (edges g)"
    by (auto dest!: agdelete_Inr agdelnode_Inr)
  show ?case
  proof (cases nxtout)
    case None
    then show ?thesis by simp
  next
    case (Some a)
    with 4 have "a \<in> set (edges g)" and "eseq e < eseq a"
      by (auto dest!: agnxtout_Some)
    from edge_measure_step [OF this sub] Some show ?thesis by simp
  qed
qed

lemma edge_loop_Some_cases:
  assumes "edge_loop g f (Some e) nx r = Inr res"
  obtains
    (skip) nxtout file_m where
      "agnxtout g e = Inr nxtout" "agget g (aghead e) ''file'' = Inr (Some file_m)"
      "f = [] \<or> file_m = [] \<or> f \<noteq> file_m"
      "edge_loop g f nxtout nx r = Inr res"
  | (keep) nxtout g1 d where
      "agnxtout g e = Inr nxtout" "agget g (aghead e) ''file'' = Inr (Some f)" "f \<noteq> []"
      "agdelete g e = Inr g1" "agdegree g1 (aghead e) = Inr d" "0 < d"
      "edge_loop g1 f nxtout nx True = Inr res"
  | (drop) nxtout g1 nx' g2 where
      "agnxtout g e = Inr nxtout" "agget g (aghead e) ''file'' = Inr (Some f)" "f \<noteq> []"
      "agdelete g e = Inr g1" "agdegree g1 (aghead e) = Inr 0"
      "(if nx = Some (aghead e) then agnxtnode g1 (aghead e) else Inr nx) = Inr nx'"
      "agdelnode g1 (aghead e) = Inr g2"
      "edge_loop g2 f nxtout nx' True = Inr res"
proof (cases "agnxtout g e")
  case (Inl err)
  with assms show ?thesis by simp
next
  case nxt: (Inr nxtout)
  show ?thesis
  proof (cases "agget g (aghead e) ''file''")
    case (Inl err)
    with assms nxt show ?thesis by simp
  next
    case (Inr fm)
    show ?thesis
    proof (cases fm)
      case None
      with assms nxt Inr show ?thesis by simp
    next
      case (Some file_m)
      note fm = Inr [unfolded Some]
      show ?thesis
      proof (cases "f = [] \<or> file_m = [] \<or> f \<noteq> file_m")
        case True
        with assms nxt fm have "edge_loop g f nxtout nx r = Inr res" by auto
        with nxt fm True show ?thesis by (rule skip)
      next
        case False
        then have ff: "f \<noteq> []" "file_m = f" by auto
        show ?thesis
        proof (cases "agdelete g e")
          case (Inl err)
          with assms nxt fm ff show ?thesis by simp
        next
          case del: (Inr g1)
          show ?thesis
          proof (cases "agdegree g1 (aghead e)")
            case (Inl err)
            with assms nxt fm ff del show ?thesis by simp
          next
            case deg: (Inr d)
            show ?thesis
            proof (cases "0 < d")
              case True
              with assms nxt fm ff del deg have "edge_loop g1 f nxtout nx True = Inr res"
                by simp
              with nxt fm ff del deg True show ?thesis by (intro keep) auto
            next
              case False
              then have d0: "d = 0" by simp
              show ?thesis
              proof (cases "if nx = Some (aghead e) then agnxtnode g1 (aghead e) else Inr nx")
                case (Inl err)
                with assms nxt fm ff del deg d0 show ?thesis by simp
              next
                case nx': (Inr nx')
                show ?thesis
                proof (cases "agdelnode g1 (aghead e)")
                  case (Inl err)
                  with assms nxt fm ff del deg d0 nx' show ?thesis by simp
                next
                  case (Inr g2)
                  with assms nxt fm ff del deg d0 nx'
                  have "edge_loop g2 f nxtout nx' True = Inr res" by simp
                  with nxt fm ff del deg d0 nx' Inr show ?thesis by (intro drop) auto
                qed
              qed
            qed
          qed
        qed
      qed
    qed
  qed
qed

lemma edge_loop_induct_Inr [consumes 1, case_names stop skip keep drop]:
  assumes run: "edge_loop g f c nx r = Inr res"
    and A_stop: "\<And>g nx r. P g None nx r (g, nx, r)"
    and A_skip: "\<And>g e nx r nxtout file_m res.
      \<lbrakk>agnxtout g e = Inr nxtout; agget g (aghead e) ''file'' = Inr (Some file_m);
       f = [] \<or> file_m = [] \<or> f \<noteq> file_m;
       edge_loop g f nxtout nx r = Inr res; P g nxtout nx r res\<rbrakk>
      \<Longrightarrow> P g (Some e) nx r res"
    and A_keep: "\<And>g e nx r nxtout g1 d res.
      \<lbrakk>agnxtout g e = Inr nxtout; agget g (aghead e) ''file'' = Inr (Some f); f \<noteq> [];
       agdelete g e = Inr g1; agdegree g1 (aghead e) = Inr d; 0 < d;
       edge_loop g1 f nxtout nx True = Inr res; P g1 nxtout nx True res\<rbrakk>
      \<Longrightarrow> P g (Some e) nx r res"
    and A_drop: "\<And>g e nx r nxtout g1 nx' g2 res.
      \<lbrakk>agnxtout g e = Inr nxtout; agget g (aghead e) ''file'' = Inr (Some f); f \<noteq> [];
       agdelete g e = Inr g1; agdegree g1 (aghead e) = Inr 0;
       (if nx = Some (aghead e) then agnxtnode g1 (aghead e) else Inr nx) = Inr nx';
       agdelnode g1 (aghead e) = Inr g2;
       edge_loop g2 f nxtout nx' True = Inr res; P g2 nxtout nx' True res\<rbrakk>
      \<Longrightarrow> P g (Some e) nx r res"
  shows "P g c nx r res"
proof -
  have "edge_loop g f' c nx r = Inr res \<Longrightarrow> f' = f \<Longrightarrow> P g c nx r res" for f'
  proof (induction g f' c nx r arbitrary: res rule: edge_loop.induct)
    case (1 g file_n nxtnode isreduced)
    then show ?case using A_stop by auto
  next
    case (2 g file_n e nxtnode isreduced)
    note [simp] = \<open>file_n = f\<close>
    from "2.prems"(1) show ?case
    proof (cases rule: edge_loop_Some_cases)
      case (skip nxtout file_m)
      from "2.IH"(1) [OF skip(1,2) refl _ skip(4)] skip(3)
      have "P g nxtout nxtnode isreduced res" by simp
      with skip show ?thesis by (intro A_skip) auto
    next
      case (keep nxtout g1 d)
      from "2.IH"(2) [OF keep(1,2) refl _ keep(4,5) keep(6) keep(7)] keep(3)
      have "P g1 nxtout nxtnode True res" by simp
      with keep show ?thesis by (intro A_keep) auto
    next
      case (drop nxtout g1 nx' g2)
      from "2.IH"(3) [OF drop(1,2) refl _ drop(4,5) _ drop(6,7) drop(8)] drop(3)
      have "P g2 nxtout nx' True res" by simp
      with drop show ?thesis by (intro A_drop) auto
    qed
  qed
  with run show ?thesis by simp
qed

subsection \<open>The reducer only deletes\<close>

definition subgraph :: "graph \<Rightarrow> graph \<Rightarrow> bool" where
  "subgraph g1 g =
     ((\<exists>P. nodes g1 = filter (\<lambda>x. P (nseq x)) (nodes g)) \<and>
      (\<exists>Q. edges g1 = filter Q (edges g)))"

lemma subgraphI:
  "nodes g1 = filter (\<lambda>x. P (nseq x)) (nodes g) \<Longrightarrow> edges g1 = filter Q (edges g) \<Longrightarrow>
   subgraph g1 g"
  unfolding subgraph_def by blast

lemma subgraph_refl [simp]: "subgraph g g"
  by (rule subgraphI [where P = "\<lambda>x. True" and Q = "\<lambda>x. True"]) simp_all

lemma subgraph_trans:
  assumes "subgraph g2 g1" and "subgraph g1 g"
  shows "subgraph g2 g"
proof -
  from assms obtain P2 Q2 P1 Q1 where
    "nodes g2 = filter (\<lambda>x. P2 (nseq x)) (nodes g1)" "edges g2 = filter Q2 (edges g1)"
    "nodes g1 = filter (\<lambda>x. P1 (nseq x)) (nodes g)" "edges g1 = filter Q1 (edges g)"
    unfolding subgraph_def by blast
  then have "nodes g2 = filter (\<lambda>x. (\<lambda>s. P1 s \<and> P2 s) (nseq x)) (nodes g)"
    and "edges g2 = filter (\<lambda>x. Q1 x \<and> Q2 x) (edges g)"
    by simp_all
  then show ?thesis by (rule subgraphI)
qed

lemma agdelete_subgraph: "agdelete g e = Inr g1 \<Longrightarrow> subgraph g1 g"
  by (rule subgraphI [where P = "\<lambda>x. True" and Q = "\<lambda>x. x \<noteq> e"])
     (simp_all add: agdelete_Inr)

lemma agdelnode_subgraph: "agdelnode g n = Inr g1 \<Longrightarrow> subgraph g1 g"
  by (rule subgraphI [where P = "\<lambda>s. s \<noteq> n" and Q = "\<lambda>x. etail x \<noteq> n \<and> ehead x \<noteq> n"])
     (simp_all add: agdelnode_Inr)

lemma subgraph_live: "subgraph g1 g \<Longrightarrow> live g1 n \<Longrightarrow> live g n"
  unfolding subgraph_def live_def node_ids_def by auto

lemma subgraph_edges: "subgraph g1 g \<Longrightarrow> e \<in> set (edges g1) \<Longrightarrow> e \<in> set (edges g)"
  unfolding subgraph_def by auto

lemma agnxtnode_Some: "agnxtnode g n = Inr (Some k) \<Longrightarrow> live g n \<and> live g k \<and> n < k"
  by (auto simp: agnxtnode_def nxt_of_def live_def split: if_splits dest: least_mem)

lemma agnxtnode_Inr: "agnxtnode g n = Inr nx \<Longrightarrow> live g n \<and> nx = nxt_of g n"
  by (auto simp: agnxtnode_def split: if_splits)

lemma edge_loop_subgraph:
  "edge_loop g f c nx r = Inr res \<Longrightarrow> subgraph (fst res) g"
proof (induction rule: edge_loop_induct_Inr)
  case (stop g nx r)
  show ?case by simp
next
  case (skip g e nx r nxtout file_m res)
  then show ?case by simp
next
  case (keep g e nx r nxtout g1 d res)
  then show ?case by (blast intro: subgraph_trans agdelete_subgraph)
next
  case (drop g e nx r nxtout g1 nx' g2 res)
  then show ?case by (blast intro: subgraph_trans agdelete_subgraph agdelnode_subgraph)
qed

lemma agdelnode_live: "agdelnode g m = Inr g2 \<Longrightarrow> live g2 k \<longleftrightarrow> live g k \<and> k \<noteq> m"
  by (auto simp: live_def node_ids_def dest!: agdelnode_Inr)

lemma agdelete_live: "agdelete g e = Inr g1 \<Longrightarrow> live g1 k \<longleftrightarrow> live g k"
  by (auto simp: live_def node_ids_def dest!: agdelete_Inr)

lemma edge_loop_nxtnode:
  "edge_loop g f c nx r = Inr res \<Longrightarrow> (\<And>j. nx = Some j \<Longrightarrow> live g j) \<Longrightarrow>
   fst (snd res) = Some k \<Longrightarrow> live (fst res) k \<and> (\<exists>j. nx = Some j \<and> j \<le> k)"
proof (induction rule: edge_loop_induct_Inr)
  case (stop g nx r)
  then show ?case by simp
next
  case (skip g e nx r nxtout file_m res)
  then show ?case by simp
next
  case (keep g e nx r nxtout g1 d res)
  then show ?case by (simp add: agdelete_live)
next
  case (drop g e nx r nxtout g1 nx' g2 res)
  have "live g2 j" if "nx' = Some j" for j
    using that drop(4,6,7) drop.prems(1)
    by (auto simp: agdelnode_live agdelete_live split: if_splits dest!: agnxtnode_Some)
  with drop have k: "live (fst res) k" and j: "\<exists>j. nx' = Some j \<and> j \<le> k" by auto
  from j drop(6) have "\<exists>j. nx = Some j \<and> j \<le> k"
    by (auto split: if_splits dest!: agnxtnode_Some)
  with k show ?case by simp
qed

lemma node_measure_step:
  assumes nx: "agnxtnode g n = Inr nx"
    and run: "edge_loop g f c nx r = Inr (g1, nx1, r1)"
    and sub: "subgraph g2 g1"
  shows "(case nx1 of None \<Rightarrow> 0 | Some k \<Rightarrow> Suc (length (filter (\<lambda>x. k < nseq x) (nodes g2))))
       < Suc (length (filter (\<lambda>x. n < nseq x) (nodes g)))"
proof (cases nx1)
  case None
  then show ?thesis by simp
next
  case (Some k)
  have "live g j" if "nx = Some j" for j
    using nx that by (auto dest: agnxtnode_Some)
  from edge_loop_nxtnode [OF run this, of k] Some
  obtain j where k: "live g1 k" and j: "nx = Some j" "j \<le> k" by auto
  from nx j have "n < k" by (auto dest: agnxtnode_Some)
  from edge_loop_subgraph [OF run] sub have "subgraph g2 g"
    by (auto intro: subgraph_trans)
  then obtain P where P: "nodes g2 = filter (\<lambda>x. P (nseq x)) (nodes g)"
    unfolding subgraph_def by blast
  from k edge_loop_subgraph [OF run] have "live g k" by (auto dest: subgraph_live)
  then obtain x where x: "x \<in> set (nodes g)" "nseq x = k"
    by (auto simp: live_def node_ids_def)
  have "length (filter (\<lambda>x. k < nseq x) (filter (\<lambda>x. P (nseq x)) (nodes g)))
      < length (filter (\<lambda>x. n < nseq x) (nodes g))"
    using x \<open>n < k\<close> by (intro filter_measure_less [of x]) auto
  with P Some show ?thesis by simp
qed

text \<open>
  The outer loop of \<open>graph_remove_intra_edges\<close>, over the nodes \<open>n\<close>. The next node
  is saved before the inner loop runs; the degree of \<open>n\<close> is read only when \<open>n\<close> was
  reduced, as the short-circuit conjunction does.
\<close>

function node_loop :: "graph \<Rightarrow> nat option \<Rightarrow> error + graph" where
  "node_loop g None = Inr g"
| "node_loop g (Some n) =
     (case agnxtnode g n of Inl err \<Rightarrow> Inl err
      | Inr nxtnode \<Rightarrow>
     (case agget g n ''file'' of Inl err \<Rightarrow> Inl err
      | Inr None \<Rightarrow> Inl AssertFailed
      | Inr (Some file_n) \<Rightarrow>
     (case agfstout g n of Inl err \<Rightarrow> Inl err
      | Inr e \<Rightarrow>
     (case edge_loop g file_n e nxtnode False of Inl err \<Rightarrow> Inl err
      | Inr (g1, nxtnode1, isreduced) \<Rightarrow>
        if isreduced then
          (case agdegree g1 n of Inl err \<Rightarrow> Inl err
           | Inr d \<Rightarrow>
             if d = 0 then
               (case agdelnode g1 n of Inl err \<Rightarrow> Inl err
                | Inr g2 \<Rightarrow> node_loop g2 nxtnode1)
             else node_loop g1 nxtnode1)
        else node_loop g1 nxtnode1))))"
  by pat_completeness auto
termination
proof (relation "measure (\<lambda>(g, c).
    case c of None \<Rightarrow> 0 | Some n \<Rightarrow> Suc (length (filter (\<lambda>x. n < nseq x) (nodes g))))",
    goal_cases)
  case 1
  show ?case by simp
next
  case (2 g n nxtnode fm file_n e res g1 y nxtnode1 isreduced d g2)
  then have "edge_loop g file_n e nxtnode False = Inr (g1, nxtnode1, isreduced)" by simp
  moreover from 2 have "subgraph g2 g1" by (auto dest: agdelnode_subgraph)
  ultimately show ?case using node_measure_step [OF 2(1)] by simp
next
  case (3 g n nxtnode fm file_n e res g1 y nxtnode1 isreduced d)
  then have "edge_loop g file_n e nxtnode False = Inr (g1, nxtnode1, isreduced)" by simp
  from node_measure_step [OF 3(1) this subgraph_refl]
  show ?case by simp
next
  case (4 g n nxtnode fm file_n e res g1 y nxtnode1 isreduced)
  then have "edge_loop g file_n e nxtnode False = Inr (g1, nxtnode1, isreduced)" by simp
  from node_measure_step [OF 4(1) this subgraph_refl]
  show ?case by simp
qed

definition graph_remove_intra_edges :: "graph \<Rightarrow> error + graph" where
  "graph_remove_intra_edges g = node_loop g (agfstnode g)"

section \<open>Standard output\<close>

text \<open>
  Standard output is the sequence of the \<open>printf\<close> calls made, one token for each call
  with its arguments already formatted; \<open>render\<close> gives the text written.
\<close>

datatype token =
    Lit string
  | LabelFile string string
  | NodeObj string string
  | LinkObj string string string

definition nl :: string where
  "nl = [CHR 0x0A]"

definition dq :: string where
  "dq = [CHR 0x22]"

fun render :: "token \<Rightarrow> string" where
  "render (Lit s) = s"
| "render (LabelFile l f) = ''label '' @ l @ '' file '' @ f @ nl"
| "render (NodeObj i grp) =
     ''    {'' @ dq @ ''id'' @ dq @ '': '' @ dq @ i @ dq @ '', '' @
     dq @ ''group'' @ dq @ '': '' @ dq @ grp @ dq @ ''}''"
| "render (LinkObj s t v) =
     ''    {'' @ dq @ ''source'' @ dq @ '': '' @ dq @ s @ dq @ '', '' @
     dq @ ''target'' @ dq @ '': '' @ dq @ t @ dq @ '', '' @
     dq @ ''value'' @ dq @ '': '' @ dq @ v @ dq @ ''}''"

definition stdout_text :: "token list \<Rightarrow> string" where
  "stdout_text ts = concat (map render ts)"

text \<open>
  The value of \<open>strlen\<close> stored in a variable of type \<open>int\<close>: the low 32 bits of
  the length, read as a signed number.
\<close>

definition strlen_int :: "string \<Rightarrow> int" where
  "strlen_int s =
     (let m = int (length s) mod 4294967296 in if m < 2147483648 then m else m - 4294967296)"

text \<open>The conversion \<open>%.*s\<close> with the \<open>int\<close> precision \<open>p\<close>, applied to the string
  \<open>s + off\<close>; a negative precision counts as none.\<close>

definition printf_prec :: "int \<Rightarrow> nat \<Rightarrow> string \<Rightarrow> string" where
  "printf_prec p off s = (if p < 0 then drop off s else take (nat p) (drop off s))"

section \<open>The Compartment Merger\<close>

text \<open>Modelled from the spec: \<open>create_node\<close> (cgraph's agopen and agnode with the create
  flag set): a graph starts empty, and a node is looked up by name and created with the
  next sequence number when there is none.\<close>

definition agopen :: graph where
  "agopen = \<lparr>nodes = [], edges = []\<rparr>"

definition fresh_seq :: "graph \<Rightarrow> nat" where
  "fresh_seq h = Suc (fold max (node_ids h) 0)"

definition agnode :: "graph \<Rightarrow> string \<Rightarrow> graph \<times> nat" where
  "agnode h name =
     (case find (\<lambda>x. nname x = name) (nodes h) of
        Some x \<Rightarrow> (h, nseq x)
      | None \<Rightarrow>
          (h\<lparr>nodes := nodes h @ [\<lparr>nseq = fresh_seq h, nname = name, nattrs = []\<rparr>]\<rparr>,
           fresh_seq h))"

record mstate =
  ms_h :: graph
  ms_compartments :: "(string \<times> nat) list"
  ms_out :: "token list"

text \<open>The inner loop of \<open>graph_merge_intra_nodes\<close>: it walks the out-edges of the
  node and its body is empty.\<close>

function merge_edge_loop :: "graph \<Rightarrow> edge option \<Rightarrow> error + unit" where
  "merge_edge_loop g None = Inr ()"
| "merge_edge_loop g (Some e) =
     (case agnxtout g e of Inl err \<Rightarrow> Inl err
      | Inr nxtout \<Rightarrow> merge_edge_loop g nxtout)"
  by pat_completeness auto
termination
proof (relation "measure (\<lambda>(g, c).
    case c of None \<Rightarrow> 0 | Some e \<Rightarrow> Suc (length (filter (\<lambda>x. eseq e < eseq x) (edges g))))",
    goal_cases)
  case 1
  show ?case by simp
next
  case (2 g e nxtout)
  show ?case
  proof (cases nxtout)
    case None
    then show ?thesis by simp
  next
    case (Some a)
    with 2 have "a \<in> set (edges g)" and "eseq e < eseq a"
      by (auto dest!: agnxtout_Some)
    from edge_measure_step [OF this, of "edges g" "\<lambda>x. True"] Some show ?thesis by simp
  qed
qed

lemma node_cursor_step:
  assumes "agnxtnode g n = Inr nx"
  shows "(case nx of None \<Rightarrow> 0 | Some k \<Rightarrow> Suc (length (filter (\<lambda>x. k < nseq x) (nodes g))))
       < Suc (length (filter (\<lambda>x. n < nseq x) (nodes g)))"
proof (cases nx)
  case None
  then show ?thesis by simp
next
  case (Some k)
  with assms have "live g k" and "n < k" by (auto dest: agnxtnode_Some)
  then obtain x where x: "x \<in> set (nodes g)" "nseq x = k"
    by (auto simp: live_def node_ids_def)
  have "length (filter (\<lambda>x. k < nseq x) (filter (\<lambda>x. True) (nodes g)))
      < length (filter (\<lambda>x. n < nseq x) (nodes g))"
    using x \<open>n < k\<close> by (intro filter_measure_less [of x]) auto
  with Some show ?thesis by simp
qed

text \<open>The outer loop of \<open>graph_merge_intra_nodes\<close>. An abort keeps what was printed
  before it.\<close>

function merge_loop :: "graph \<Rightarrow> mstate \<Rightarrow> nat option \<Rightarrow> (error \<times> token list) + mstate" where
  "merge_loop g st None = Inr st"
| "merge_loop g st (Some n) =
     (case agnxtnode g n of Inl err \<Rightarrow> Inl (err, ms_out st)
      | Inr nxtnode \<Rightarrow>
     (case agget g n ''file'' of Inl err \<Rightarrow> Inl (err, ms_out st)
      | Inr None \<Rightarrow> Inl (AssertFailed, ms_out st)
      | Inr (Some file_n) \<Rightarrow>
        if length file_n = 0 then merge_loop g st nxtnode
        else
          let st' =
            (case map_of (ms_compartments st) file_n of
               None \<Rightarrow>
                 let (h1, compartment) = agnode (ms_h st) file_n;
                     h2 = agset h1 compartment ''label'' file_n;
                     out' = ms_out st @ [LabelFile file_n file_n];
                     h3 = agset h2 compartment ''file'' file_n
                 in \<lparr>ms_h = h3,
                     ms_compartments = (file_n, compartment) # ms_compartments st,
                     ms_out = out'\<rparr>
             | Some compartment \<Rightarrow> st)
          in
     (case agfstout g n of Inl err \<Rightarrow> Inl (err, ms_out st')
      | Inr e \<Rightarrow>
     (case merge_edge_loop g e of Inl err \<Rightarrow> Inl (err, ms_out st')
      | Inr u \<Rightarrow> merge_loop g st' nxtnode))))"
  by pat_completeness auto
termination
proof (relation "measure (\<lambda>(g, st, c).
    case c of None \<Rightarrow> 0 | Some n \<Rightarrow> Suc (length (filter (\<lambda>x. n < nseq x) (nodes g))))",
    goal_cases)
  case 1
  show ?case by simp
next
  case (2 g st n nxtnode fm file_n)
  then show ?case using node_cursor_step [of g n nxtnode] by simp
next
  case (3 g st n nxtnode fm file_n st' e u)
  then show ?case using node_cursor_step [of g n nxtnode] by simp
qed

definition graph_merge_intra_nodes :: "graph \<Rightarrow> (error \<times> token list) + (graph \<times> token list)" where
  "graph_merge_intra_nodes g =
     (case merge_loop g \<lparr>ms_h = agopen, ms_compartments = [], ms_out = []\<rparr> (agfstnode g) of
        Inl x \<Rightarrow> Inl x
      | Inr st \<Rightarrow> Inr (ms_h st, ms_out st))"

section \<open>The Arc-Diagram Emitter\<close>

text \<open>
  The first loop of \<open>graph_print_d3_arc\<close>: one object for each node. \<open>strlen\<close> of a
  missing attribute dereferences NULL, and the lengths are kept in \<open>int\<close> variables.
\<close>

function print_nodes ::
  "graph \<Rightarrow> token list \<Rightarrow> nat option \<Rightarrow> (error \<times> token list) + token list"
where
  "print_nodes g out None = Inr out"
| "print_nodes g out (Some n) =
     (case agnxtnode g n of Inl err \<Rightarrow> Inl (err, out)
      | Inr nxtnode \<Rightarrow>
     (case agget g n ''label'' of Inl err \<Rightarrow> Inl (err, out)
      | Inr None \<Rightarrow> Inl (NullDeref, out)
      | Inr (Some labeln) \<Rightarrow>
     (case agget g n ''file'' of Inl err \<Rightarrow> Inl (err, out)
      | Inr None \<Rightarrow> Inl (NullDeref, out)
      | Inr (Some file) \<Rightarrow>
        let labelnlen = strlen_int labeln;
            filelen = strlen_int file;
            out1 = out @
              [NodeObj
                 (printf_prec (if labelnlen > 2 then labelnlen - 2 else 0) 1 labeln)
                 (printf_prec (if filelen > 4 then filelen - 4 else 0) 1 file @
                  (if filelen = 0 then ''NONE'' else ''''))];
            out2 = (if nxtnode \<noteq> None then out1 @ [Lit '',''] else out1);
            out3 = out2 @ [Lit nl]
        in print_nodes g out3 nxtnode)))"
  by pat_completeness auto
termination
proof (relation "measure (\<lambda>(g, out, c).
    case c of None \<Rightarrow> 0 | Some n \<Rightarrow> Suc (length (filter (\<lambda>x. n < nseq x) (nodes g))))",
    goal_cases)
  case 1
  show ?case by simp
next
  case (2 g out n nxtnode)
  then show ?case using node_cursor_step [of g n nxtnode] by simp
qed

text \<open>The second pair of loops: one object for each out-edge of each node.\<close>

function print_out_edges ::
  "graph \<Rightarrow> token list \<Rightarrow> string \<Rightarrow> nat option \<Rightarrow> edge option \<Rightarrow>
   (error \<times> token list) + token list"
where
  "print_out_edges g out labeln nxtnode None = Inr out"
| "print_out_edges g out labeln nxtnode (Some e) =
     (case agnxtout g e of Inl err \<Rightarrow> Inl (err, out)
      | Inr nxtout \<Rightarrow>
     (case agget g (aghead e) ''label'' of Inl err \<Rightarrow> Inl (err, out)
      | Inr None \<Rightarrow> Inl (NullDeref, out)
      | Inr (Some labelm) \<Rightarrow>
        let labelnlen = strlen_int labeln;
            labelmlen = strlen_int labelm;
            val = agget_edge e ''value'';
            out1 = out @
              [LinkObj
                 (printf_prec (if labelnlen > 2 then labelnlen - 2 else 0) 1 labeln)
                 (printf_prec (if labelmlen > 2 then labelmlen - 2 else 0) 1 labelm)
                 (case val of Some v \<Rightarrow> v | None \<Rightarrow> '''')];
            out2 = (if nxtout \<noteq> None \<or> nxtnode \<noteq> None then out1 @ [Lit '',''] else out1);
            out3 = out2 @ [Lit nl]
        in print_out_edges g out3 labeln nxtnode nxtout))"
  by pat_completeness auto
termination
proof (relation "measure (\<lambda>(g, out, labeln, nxtnode, c).
    case c of None \<Rightarrow> 0 | Some e \<Rightarrow> Suc (length (filter (\<lambda>x. eseq e < eseq x) (edges g))))",
    goal_cases)
  case 1
  show ?case by simp
next
  case (2 g out labeln nxtnode e nxtout)
  show ?case
  proof (cases nxtout)
    case None
    then show ?thesis by simp
  next
    case (Some a)
    with 2 have "a \<in> set (edges g)" and "eseq e < eseq a"
      by (auto dest!: agnxtout_Some)
    from edge_measure_step [OF this, of "edges g" "\<lambda>x. True"] Some show ?thesis by simp
  qed
qed

function print_links ::
  "graph \<Rightarrow> token list \<Rightarrow> nat option \<Rightarrow> (error \<times> token list) + token list"
where
  "print_links g out None = Inr out"
| "print_links g out (Some n) =
     (case agnxtnode g n of Inl err \<Rightarrow> Inl (err, out)
      | Inr nxtnode \<Rightarrow>
     (case agget g n ''label'' of Inl err \<Rightarrow> Inl (err, out)
      | Inr None \<Rightarrow> Inl (NullDeref, out)
      | Inr (Some labeln) \<Rightarrow>
     (case agfstout g n of Inl err \<Rightarrow> Inl (err, out)
      | Inr e \<Rightarrow>
     (case print_out_edges g out labeln nxtnode e of Inl x \<Rightarrow> Inl x
      | Inr out1 \<Rightarrow> print_links g out1 nxtnode))))"
  by pat_completeness auto
termination
proof (relation "measure (\<lambda>(g, out, c).
    case c of None \<Rightarrow> 0 | Some n \<Rightarrow> Suc (length (filter (\<lambda>x. n < nseq x) (nodes g))))",
    goal_cases)
  case 1
  show ?case by simp
next
  case (2 g out n nxtnode)
  then show ?case using node_cursor_step [of g n nxtnode] by simp
qed

definition graph_print_d3_arc :: "graph \<Rightarrow> (error \<times> token list) + token list" where
  "graph_print_d3_arc g =
     (let out0 = [Lit (''{'' @ nl), Lit (''  '' @ dq @ ''nodes'' @ dq @ '': ['' @ nl)] in
      case print_nodes g out0 (agfstnode g) of Inl x \<Rightarrow> Inl x
      | Inr out1 \<Rightarrow>
          let out2 = out1 @ [Lit (''  ],'' @ nl), Lit (''  '' @ dq @ ''links'' @ dq @ '': ['' @ nl)] in
          (case print_links g out2 (agfstnode g) of Inl x \<Rightarrow> Inl x
           | Inr out3 \<Rightarrow> Inr (out3 @ [Lit (''  ]'' @ nl), Lit (''}'' @ nl)])))"

section \<open>The pipeline\<close>

datatype node_type_t = NODE_TYPE_INVALID | NODE_TYPE_FUNCTION | NODE_TYPE_COMPARTMENT

datatype format_type_t = FORMAT_TYPE_INVALID | FORMAT_TYPE_D3_ARC

fun node_type_from_str :: "string \<Rightarrow> node_type_t" where
  "node_type_from_str str =
     (if str = ''function'' then NODE_TYPE_FUNCTION
      else if str = ''compartment'' then NODE_TYPE_COMPARTMENT
      else NODE_TYPE_INVALID)"

fun format_type_from_str :: "string \<Rightarrow> format_type_t" where
  "format_type_from_str str =
     (if str = ''d3-arc'' then FORMAT_TYPE_D3_ARC else FORMAT_TYPE_INVALID)"

text \<open>
  The body of the loop of \<open>main\<close> for one input graph: what reaches standard output,
  and the abort that ended the run, if any.
\<close>

datatype outcome = Aborted error "token list" | Finished "token list"

definition process_graph :: "node_type_t \<Rightarrow> format_type_t \<Rightarrow> graph \<Rightarrow> outcome" where
  "process_graph nodetype formattype g =
     (case graph_remove_intra_edges g of Inl err \<Rightarrow> Aborted err []
      | Inr g1 \<Rightarrow>
     (case (case nodetype of
              NODE_TYPE_COMPARTMENT \<Rightarrow> graph_merge_intra_nodes g1
            | _ \<Rightarrow> Inr (g1, [])) of
        Inl (err, out) \<Rightarrow> Aborted err out
      | Inr (g2, out) \<Rightarrow>
     (case formattype of
        FORMAT_TYPE_D3_ARC \<Rightarrow>
          (case graph_print_d3_arc g2 of
             Inl (err, out') \<Rightarrow> Aborted err (out @ out')
           | Inr out' \<Rightarrow> Finished (out @ out'))
      | _ \<Rightarrow> Finished out)))"

section \<open>Example graphs\<close>

text \<open>Attribute strings as the input format stores them, with their quote characters.\<close>

definition quoted :: "string \<Rightarrow> string" where
  "quoted s = dq @ s @ dq"

definition mk_node :: "nat \<Rightarrow> string \<Rightarrow> string \<Rightarrow> node" where
  "mk_node s name f =
     \<lparr>nseq = s, nname = name, nattrs = [(''label'', quoted name), (''file'', f)]\<rparr>"

definition mk_edge :: "nat \<Rightarrow> nat \<Rightarrow> nat \<Rightarrow> attrs \<Rightarrow> edge" where
  "mk_edge s t h as = \<lparr>eseq = s, etail = t, ehead = h, eattrs = as\<rparr>"

text \<open>The example of the specification: A and B in a.c, C in b.c, edges A to B and B to C.\<close>

definition ex_spec :: graph where
  "ex_spec =
     \<lparr>nodes = [mk_node 1 ''A'' (quoted ''a.c''), mk_node 2 ''B'' (quoted ''a.c''),
               mk_node 3 ''C'' (quoted ''b.c'')],
      edges = [mk_edge 1 1 2 [], mk_edge 2 2 3 [(''value'', ''7'')]]\<rparr>"

text \<open>Two nodes in two files and one edge between them, with a weight.\<close>

definition ex_inter :: graph where
  "ex_inter =
     \<lparr>nodes = [mk_node 1 ''A'' (quoted ''a.c''), mk_node 2 ''B'' (quoted ''b.c'')],
      edges = [mk_edge 1 1 2 [(''value'', ''3'')]]\<rparr>"

text \<open>A recursive function: one node with an edge to itself.\<close>

definition ex_self_loop :: graph where
  "ex_self_loop =
     \<lparr>nodes = [mk_node 1 ''A'' (quoted ''a.c'')], edges = [mk_edge 1 1 1 []]\<rparr>"

text \<open>The example of the specification after the reducer: A is gone with the edge from A
  to B.\<close>

definition ex_spec_reduced :: graph where
  "ex_spec_reduced =
     \<lparr>nodes = [mk_node 2 ''B'' (quoted ''a.c''), mk_node 3 ''C'' (quoted ''b.c'')],
      edges = [mk_edge 2 2 3 [(''value'', ''7'')]]\<rparr>"

text \<open>Three nodes of one file: an edge A to B, and C without any edge.\<close>

definition ex_isolated :: graph where
  "ex_isolated =
     \<lparr>nodes = [mk_node 1 ''A'' (quoted ''a.c''), mk_node 2 ''B'' (quoted ''a.c''),
               mk_node 3 ''C'' (quoted ''a.c'')],
      edges = [mk_edge 1 1 2 []]\<rparr>"

text \<open>Two nodes and an edge, in a graph that declares no \<open>file\<close> attribute.\<close>

definition ex_no_file :: graph where
  "ex_no_file =
     \<lparr>nodes = [\<lparr>nseq = 1, nname = ''A'', nattrs = [(''label'', quoted ''A'')]\<rparr>,
               \<lparr>nseq = 2, nname = ''B'', nattrs = [(''label'', quoted ''B'')]\<rparr>],
      edges = [mk_edge 1 1 2 []]\<rparr>"

text \<open>Four nodes: two in a.c, one in b.c and one without a file.\<close>

definition ex_files :: graph where
  "ex_files =
     \<lparr>nodes = [mk_node 1 ''A'' (quoted ''a.c''), mk_node 2 ''B'' [],
               mk_node 3 ''C'' (quoted ''b.c''), mk_node 4 ''D'' (quoted ''a.c'')],
      edges = [mk_edge 1 1 3 []]\<rparr>"

text \<open>The compartments of these four nodes.\<close>

definition ex_files_merged :: graph where
  "ex_files_merged =
     \<lparr>nodes =
        [\<lparr>nseq = 1, nname = quoted ''a.c'',
          nattrs = [(''file'', quoted ''a.c''), (''label'', quoted ''a.c'')]\<rparr>,
         \<lparr>nseq = 2, nname = quoted ''b.c'',
          nattrs = [(''file'', quoted ''b.c''), (''label'', quoted ''b.c'')]\<rparr>],
      edges = []\<rparr>"

text \<open>What the emitter prints for the reduced example, and what the pipeline prints in
  compartment mode for the two nodes in two files.\<close>

definition ex_spec_reduced_out :: "token list" where
  "ex_spec_reduced_out =
     [Lit (''{'' @ nl), Lit (''  '' @ dq @ ''nodes'' @ dq @ '': ['' @ nl),
      NodeObj ''B'' ''a'', Lit '','', Lit nl, NodeObj ''C'' ''b'', Lit nl,
      Lit (''  ],'' @ nl), Lit (''  '' @ dq @ ''links'' @ dq @ '': ['' @ nl),
      LinkObj ''B'' ''C'' ''7'', Lit '','', Lit nl,
      Lit (''  ]'' @ nl), Lit (''}'' @ nl)]"

definition ex_inter_out :: "token list" where
  "ex_inter_out =
     [LabelFile (quoted ''a.c'') (quoted ''a.c''), LabelFile (quoted ''b.c'') (quoted ''b.c''),
      Lit (''{'' @ nl), Lit (''  '' @ dq @ ''nodes'' @ dq @ '': ['' @ nl),
      NodeObj ''a.c'' ''a'', Lit '','', Lit nl, NodeObj ''b.c'' ''b'', Lit nl,
      Lit (''  ],'' @ nl), Lit (''  '' @ dq @ ''links'' @ dq @ '': ['' @ nl),
      Lit (''  ]'' @ nl), Lit (''}'' @ nl)]"

text \<open>One node whose label holds quote characters and braces.\<close>

definition ex_quoted_label :: graph where
  "ex_quoted_label =
     \<lparr>nodes = [mk_node 1 (''a'' @ dq @ ''}, {'' @ dq @ ''id'' @ dq @ '': '' @ dq @ ''b'')
                 (quoted ''a.c'')],
      edges = []\<rparr>"

text \<open>What the emitter prints for it, and the text between the two lines around the
  \<open>nodes\<close> array.\<close>

definition ex_quoted_label_out :: "token list" where
  "ex_quoted_label_out =
     [Lit (''{'' @ nl), Lit (''  '' @ dq @ ''nodes'' @ dq @ '': ['' @ nl),
      NodeObj (''a'' @ dq @ ''}, {'' @ dq @ ''id'' @ dq @ '': '' @ dq @ ''b'') ''a'', Lit nl,
      Lit (''  ],'' @ nl), Lit (''  '' @ dq @ ''links'' @ dq @ '': ['' @ nl),
      Lit (''  ]'' @ nl), Lit (''}'' @ nl)]"

definition ex_quoted_label_nodes :: string where
  "ex_quoted_label_nodes =
     ''    {'' @ dq @ ''id'' @ dq @ '': '' @ dq @ ''a'' @ dq @ ''}, {'' @
     dq @ ''id'' @ dq @ '': '' @ dq @ ''b'' @ dq @ '', '' @
     dq @ ''group'' @ dq @ '': '' @ dq @ ''a'' @ dq @ ''}'' @ nl"

section \<open>Predicates of the properties\<close>

text \<open>The stripping rule in the words of the specification: one leading character and
  \<open>k\<close> trailing characters are removed.\<close>

definition strip_outer :: "nat \<Rightarrow> string \<Rightarrow> string" where
  "strip_outer k s = take (length s - Suc k) (drop 1 s)"

text \<open>The file of a node, and the edges the reducer removes: both ends have the same,
  non-empty file.\<close>

definition nfile :: "graph \<Rightarrow> nat \<Rightarrow> string option" where
  "nfile g n = (case find_node g n of None \<Rightarrow> None | Some x \<Rightarrow> map_of (nattrs x) ''file'')"

definition intra :: "graph \<Rightarrow> edge \<Rightarrow> bool" where
  "intra g e =
     (case nfile g (etail e) of None \<Rightarrow> False
      | Some a \<Rightarrow> a \<noteq> [] \<and> nfile g (ehead e) = Some a)"

text \<open>A well-formed graph: handles are unique and every edge joins two nodes of the
  graph.\<close>

definition wf_graph :: "graph \<Rightarrow> bool" where
  "wf_graph g =
     (distinct (node_ids g) \<and> distinct (map eseq (edges g)) \<and>
      (\<forall>e \<in> set (edges g). live g (etail e) \<and> live g (ehead e)))"

text \<open>The nodes of \<open>g\<close> are nodes of \<open>g0\<close>, with their attributes.\<close>

definition same_attrs :: "graph \<Rightarrow> graph \<Rightarrow> bool" where
  "same_attrs g g0 = (\<forall>n. live g n \<longrightarrow> find_node g n = find_node g0 n)"

text \<open>What a cursor has passed: an edge before the edge cursor, the tail of an edge
  before the node cursor, a node at or after the node cursor. The NULL cursor has passed
  everything.\<close>

definition before :: "edge option \<Rightarrow> edge \<Rightarrow> bool" where
  "before c e' = (case c of None \<Rightarrow> True | Some e \<Rightarrow> eseq e' < eseq e)"

definition tail_before :: "nat option \<Rightarrow> edge \<Rightarrow> bool" where
  "tail_before c e = (case c of None \<Rightarrow> True | Some n \<Rightarrow> etail e < n)"

definition at_or_after :: "nat option \<Rightarrow> nat \<Rightarrow> bool" where
  "at_or_after c k = (case c of None \<Rightarrow> False | Some n \<Rightarrow> n \<le> k)"

text \<open>Every node has a \<open>file\<close> attribute.\<close>

definition all_files :: "graph \<Rightarrow> bool" where
  "all_files g = (\<forall>x \<in> set (nodes g). map_of (nattrs x) ''file'' \<noteq> None)"

text \<open>The block of \<open>graph_merge_intra_nodes\<close> that looks the compartment of a file up
  and creates it when there is none.\<close>

definition compartment_for :: "mstate \<Rightarrow> string \<Rightarrow> mstate" where
  "compartment_for st file_n =
     (case map_of (ms_compartments st) file_n of
        None \<Rightarrow>
          let (h1, compartment) = agnode (ms_h st) file_n;
              h2 = agset h1 compartment ''label'' file_n;
              out' = ms_out st @ [LabelFile file_n file_n];
              h3 = agset h2 compartment ''file'' file_n
          in \<lparr>ms_h = h3,
              ms_compartments = (file_n, compartment) # ms_compartments st,
              ms_out = out'\<rparr>
      | Some compartment \<Rightarrow> st)"

text \<open>The invariant of the merger: the output nodes and the keys of the map are the
  files \<open>S\<close>, once each, and every output node has its name as label and file.\<close>

definition compartment_ok :: "node \<Rightarrow> bool" where
  "compartment_ok c =
     (map_of (nattrs c) ''label'' = Some (nname c) \<and> map_of (nattrs c) ''file'' = Some (nname c))"

definition merged :: "mstate \<Rightarrow> string set \<Rightarrow> bool" where
  "merged st S =
     (distinct (map nname (nodes (ms_h st))) \<and>
      nname ` set (nodes (ms_h st)) = S \<and>
      fst ` set (ms_compartments st) = S \<and>
      (\<forall>c \<in> set (nodes (ms_h st)). compartment_ok c))"

text \<open>The non-empty files of the nodes at or after the cursor.\<close>

definition files_from :: "graph \<Rightarrow> nat option \<Rightarrow> string set" where
  "files_from g c = {f. f \<noteq> [] \<and> (\<exists>k. live g k \<and> at_or_after c k \<and> nfile g k = Some f)}"

text \<open>No edge from a node to itself; every node has a \<open>label\<close> attribute.\<close>

definition no_self_loop :: "graph \<Rightarrow> bool" where
  "no_self_loop g = (\<forall>e \<in> set (edges g). etail e \<noteq> ehead e)"

definition all_labels :: "graph \<Rightarrow> bool" where
  "all_labels g = (\<forall>x \<in> set (nodes g). map_of (nattrs x) ''label'' \<noteq> None)"

text \<open>The nodes in the order of their handles, and the out-edges of a node in the order
  of theirs: the order in which the loops of the emitter visit them.\<close>

definition node_order :: "graph \<Rightarrow> node list" where
  "node_order g = sort_key nseq (nodes g)"

definition out_edges :: "graph \<Rightarrow> nat \<Rightarrow> edge list" where
  "out_edges g n = sort_key eseq (filter (\<lambda>e. etail e = n) (edges g))"

text \<open>The cursor at the head of what is left of such a list.\<close>

definition node_cursor :: "node list \<Rightarrow> nat option" where
  "node_cursor ys = (case ys of [] \<Rightarrow> None | y # _ \<Rightarrow> Some (nseq y))"

definition edge_cursor :: "edge list \<Rightarrow> edge option" where
  "edge_cursor es = (case es of [] \<Rightarrow> None | e # _ \<Rightarrow> Some e)"

text \<open>The stored attribute of a node, the stored label of the head of an edge, and the
  stored weight of an edge.\<close>

definition attr :: "node \<Rightarrow> string \<Rightarrow> string" where
  "attr x a = (case map_of (nattrs x) a of None \<Rightarrow> [] | Some v \<Rightarrow> v)"

definition head_label :: "graph \<Rightarrow> edge \<Rightarrow> string" where
  "head_label g e = (case find_node g (ehead e) of None \<Rightarrow> [] | Some y \<Rightarrow> attr y ''label'')"

definition weight :: "edge \<Rightarrow> string" where
  "weight e = (case agget_edge e ''value'' of None \<Rightarrow> [] | Some v \<Rightarrow> v)"

text \<open>What the two \<open>printf\<close> calls make of a label and of a file.\<close>

definition id_field :: "string \<Rightarrow> string" where
  "id_field l = printf_prec (if strlen_int l > 2 then strlen_int l - 2 else 0) 1 l"

definition group_field :: "string \<Rightarrow> string" where
  "group_field f =
     printf_prec (if strlen_int f > 4 then strlen_int f - 4 else 0) 1 f @
     (if strlen_int f = 0 then ''NONE'' else [])"

text \<open>The fields of the object of a node and of the object of an edge that leaves it.\<close>

definition node_entry :: "node \<Rightarrow> string \<times> string" where
  "node_entry x = (id_field (attr x ''label''), group_field (attr x ''file''))"

definition link_entry :: "graph \<Rightarrow> node \<Rightarrow> edge \<Rightarrow> string \<times> string \<times> string" where
  "link_entry g x e = (id_field (attr x ''label''), id_field (head_label g e), weight e)"

definition node_entries :: "graph \<Rightarrow> (string \<times> string) list" where
  "node_entries g = map node_entry (node_order g)"

definition link_groups :: "graph \<Rightarrow> (string \<times> string \<times> string) list list" where
  "link_groups g = map (\<lambda>x. map (link_entry g x) (out_edges g (nseq x))) (node_order g)"

text \<open>The \<open>printf\<close> calls for a list of node objects, for the link objects of one node
  (\<open>flw\<close>: another node follows), and for the link objects of all nodes.\<close>

fun node_tokens :: "(string \<times> string) list \<Rightarrow> token list" where
  "node_tokens [] = []"
| "node_tokens ((i, grp) # es) =
     NodeObj i grp # (if es \<noteq> [] then [Lit '',''] else []) @ [Lit nl] @ node_tokens es"

fun link_tokens :: "bool \<Rightarrow> (string \<times> string \<times> string) list \<Rightarrow> token list" where
  "link_tokens flw [] = []"
| "link_tokens flw ((s, t, v) # es) =
     LinkObj s t v # (if es \<noteq> [] \<or> flw then [Lit '',''] else []) @ [Lit nl] @
     link_tokens flw es"

fun group_tokens :: "(string \<times> string \<times> string) list list \<Rightarrow> token list" where
  "group_tokens [] = []"
| "group_tokens (es # gs) = link_tokens (gs \<noteq> []) es @ group_tokens gs"

definition d3_arc_tokens ::
  "(string \<times> string) list \<Rightarrow> (string \<times> string \<times> string) list list \<Rightarrow> token list" where
  "d3_arc_tokens nes lgs =
     [Lit (''{'' @ nl), Lit (''  '' @ dq @ ''nodes'' @ dq @ '': ['' @ nl)] @ node_tokens nes @
     [Lit (''  ],'' @ nl), Lit (''  '' @ dq @ ''links'' @ dq @ '': ['' @ nl)] @ group_tokens lgs @
     [Lit (''  ]'' @ nl), Lit (''}'' @ nl)]"

text \<open>The d3-arc document in the words of the specification: the text of a node object
  and of a link object, and the three lines around the two arrays.\<close>

definition node_object_text :: "string \<times> string \<Rightarrow> string" where
  "node_object_text ne =
     ''    {'' @ dq @ ''id'' @ dq @ '': '' @ dq @ fst ne @ dq @ '', '' @
     dq @ ''group'' @ dq @ '': '' @ dq @ snd ne @ dq @ ''}''"

definition link_object_text :: "string \<times> string \<times> string \<Rightarrow> string" where
  "link_object_text le =
     ''    {'' @ dq @ ''source'' @ dq @ '': '' @ dq @ fst le @ dq @ '', '' @
     dq @ ''target'' @ dq @ '': '' @ dq @ fst (snd le) @ dq @ '', '' @
     dq @ ''value'' @ dq @ '': '' @ dq @ snd (snd le) @ dq @ ''}''"

definition d3_open :: string where
  "d3_open = ''{'' @ nl @ ''  '' @ dq @ ''nodes'' @ dq @ '': ['' @ nl"

definition d3_mid :: string where
  "d3_mid = ''  ],'' @ nl @ ''  '' @ dq @ ''links'' @ dq @ '': ['' @ nl"

definition d3_close :: string where
  "d3_close = ''  ]'' @ nl @ ''}'' @ nl"

text \<open>The lines of the two arrays as the code separates them: a comma after every node
  object but the last, and after every link object but the last one of the last node.\<close>

fun node_text :: "(string \<times> string) list \<Rightarrow> string" where
  "node_text [] = []"
| "node_text (ne # es) =
     node_object_text ne @ (if es \<noteq> [] then '','' else []) @ nl @ node_text es"

fun link_text :: "bool \<Rightarrow> (string \<times> string \<times> string) list \<Rightarrow> string" where
  "link_text flw [] = []"
| "link_text flw (le # es) =
     link_object_text le @ (if es \<noteq> [] \<or> flw then '','' else []) @ nl @ link_text flw es"

fun group_text :: "(string \<times> string \<times> string) list list \<Rightarrow> string" where
  "group_text [] = []"
| "group_text (es # gs) = link_text (gs \<noteq> []) es @ group_text gs"

definition d3_arc_text ::
  "(string \<times> string) list \<Rightarrow> (string \<times> string \<times> string) list list \<Rightarrow> string" where
  "d3_arc_text nes lgs = d3_open @ node_text nes @ d3_mid @ group_text lgs @ d3_close"

text \<open>The fields in the words of the specification, as amended: the label without its
  first and its last character, the file without its first and its last three characters
  and \<open>NONE\<close> for the empty file; the source is the label of the tail of the edge and
  the target the label of its head.\<close>

definition stripped_node :: "node \<Rightarrow> string \<times> string" where
  "stripped_node x =
     (strip_outer 1 (attr x ''label''),
      if attr x ''file'' = [] then ''NONE'' else strip_outer 3 (attr x ''file''))"

definition stripped_link :: "graph \<Rightarrow> node \<Rightarrow> edge \<Rightarrow> string \<times> string \<times> string" where
  "stripped_link g x e =
     (strip_outer 1 (attr x ''label''), strip_outer 1 (head_label g e), weight e)"

text \<open>Every label and every file is shorter than \<open>2^31\<close> bytes.\<close>

definition short_attrs :: "graph \<Rightarrow> bool" where
  "short_attrs g =
     (\<forall>x \<in> set (nodes g).
        length (attr x ''label'') < 2147483648 \<and> length (attr x ''file'') < 2147483648)"

text \<open>The objects of a JSON text: the opening braces outside its strings. A string runs
  from a quote to the next quote that no backslash escapes.\<close>

datatype scan = Outside | Inside | Escaped

fun json_scan :: "scan \<Rightarrow> string \<Rightarrow> nat" where
  "json_scan st [] = 0"
| "json_scan Outside (c # cs) =
     (if c = CHR 0x22 then json_scan Inside cs
      else if c = CHR ''{'' then Suc (json_scan Outside cs)
      else json_scan Outside cs)"
| "json_scan Inside (c # cs) =
     (if c = CHR 0x5C then json_scan Escaped cs
      else if c = CHR 0x22 then json_scan Outside cs
      else json_scan Inside cs)"
| "json_scan Escaped (c # cs) = json_scan Inside cs"

definition json_objects :: "string \<Rightarrow> nat" where
  "json_objects s = json_scan Outside s"

text \<open>A string that is a JSON string as it stands: no quote and no backslash.\<close>

definition plain :: "string \<Rightarrow> bool" where
  "plain s = (CHR 0x22 \<notin> set s \<and> CHR 0x5C \<notin> set s)"

definition plain_fields :: "graph \<Rightarrow> bool" where
  "plain_fields g =
     ((\<forall>ne \<in> set (node_entries g). plain (fst ne) \<and> plain (snd ne)) \<and>
      (\<forall>le \<in> set (concat (link_groups g)).
         plain (fst le) \<and> plain (fst (snd le)) \<and> plain (snd (snd le))))"

text \<open>The text \<open>seg\<close> is the objects \<open>obs\<close>, one on each line, each followed by a comma
  or not.\<close>

fun object_lines :: "string list \<Rightarrow> string \<Rightarrow> bool" where
  "object_lines [] seg = (seg = [])"
| "object_lines (ob # obs) seg =
     (let line = ob @ nl; linec = ob @ '','' @ nl in
      (take (length line) seg = line \<and> object_lines obs (drop (length line) seg)) \<or>
      (take (length linec) seg = linec \<and> object_lines obs (drop (length linec) seg)))"

section \<open>Properties of the code\<close>

text \<open>
  C1. The Compartment Merger re-creates every edge between two nodes with files as an edge
  between their compartments, with its \<open>value\<close>. The code does not: for the graph of
  two nodes in two files joined by one edge of weight 3, which the reducer leaves as it
  is, the merged graph has the two compartments and no edge.
\<close>

theorem merge_creates_no_edge:
  "graph_remove_intra_edges ex_inter = Inr ex_inter \<and>
   graph_merge_intra_nodes ex_inter =
     Inr (\<lparr>nodes =
             [\<lparr>nseq = 1, nname = quoted ''a.c'',
               nattrs = [(''file'', quoted ''a.c''), (''label'', quoted ''a.c'')]\<rparr>,
              \<lparr>nseq = 2, nname = quoted ''b.c'',
               nattrs = [(''file'', quoted ''b.c''), (''label'', quoted ''b.c'')]\<rparr>],
           edges = []\<rparr>,
          [LabelFile (quoted ''a.c'') (quoted ''a.c''), LabelFile (quoted ''b.c'') (quoted ''b.c'')])"
  by code_simp

text \<open>
  C2. Everything written to standard output for a graph is one JSON document. The code
  does not do that in compartment mode: the merger prints a line \<open>label ... file ...\<close>
  for each compartment it creates, before the document starts.
\<close>

theorem stdout_starts_with_label_line:
  "process_graph NODE_TYPE_COMPARTMENT FORMAT_TYPE_D3_ARC ex_inter = Finished ex_inter_out \<and>
   take 23 (stdout_text ex_inter_out) = ''label '' @ quoted ''a.c'' @ '' file '' @ quoted ''a.c'' @ nl \<and>
   take 1 (stdout_text ex_inter_out) \<noteq> ''{''"
  by code_simp

text \<open>
  C9. The reducer never uses the handle of a node it has deleted. The code does, for a node
  whose last edge is an intra-file edge to itself: the inner loop deletes the edge and
  then the node, as the head of the edge, and the check after the loop reads the degree
  of the deleted node.
\<close>

theorem self_loop_uses_deleted_node:
  "edge_loop ex_self_loop (quoted ''a.c'') (Some (mk_edge 1 1 1 [])) None False =
     Inr (\<lparr>nodes = [], edges = []\<rparr>, None, True) \<and>
   agdegree \<lparr>nodes = [], edges = []\<rparr> 1 = Inl UseAfterDelete \<and>
   graph_remove_intra_edges ex_self_loop = Inl UseAfterDelete"
  by code_simp

text \<open>
  C6, as the specification states it: every printed field strips one leading and one or
  two trailing characters. It fails for \<open>group\<close>: of the file \<open>"b.c"\<close> the code
  prints \<open>b\<close>, which is neither \<open>b.c\<close> nor \<open>b.\<close>.
\<close>

theorem group_strips_three_counterexample:
  "print_nodes ex_inter [] (Some 2) = Inr [NodeObj ''B'' ''b'', Lit nl] \<and>
   agget ex_inter 2 ''file'' = Inr (Some (quoted ''b.c'')) \<and>
   ''b'' \<noteq> strip_outer 1 (quoted ''b.c'') \<and>
   ''b'' \<noteq> strip_outer 2 (quoted ''b.c'')"
  by code_simp

section \<open>Invariants of the reducer\<close>

lemma node_loop_Some_cases:
  assumes "node_loop g (Some n) = Inr g'"
  obtains nx f e g1 nx1 r g2 where
    "agnxtnode g n = Inr nx" "agget g n ''file'' = Inr (Some f)" "agfstout g n = Inr e"
    "edge_loop g f e nx False = Inr (g1, nx1, r)"
    "(r \<and> agdegree g1 n = Inr 0 \<and> agdelnode g1 n = Inr g2) \<or>
     ((\<not> r \<or> (\<exists>d. agdegree g1 n = Inr d \<and> 0 < d)) \<and> g2 = g1)"
    "node_loop g2 nx1 = Inr g'"
proof (cases "agnxtnode g n")
  case (Inl err)
  with assms show ?thesis by simp
next
  case nx: (Inr nx)
  show ?thesis
  proof (cases "agget g n ''file''")
    case (Inl err)
    with assms nx show ?thesis by simp
  next
    case (Inr fm)
    show ?thesis
    proof (cases fm)
      case None
      with assms nx Inr show ?thesis by simp
    next
      case (Some f)
      note fm = Inr [unfolded Some]
      show ?thesis
      proof (cases "agfstout g n")
        case (Inl err)
        with assms nx fm show ?thesis by simp
      next
        case e: (Inr e)
        show ?thesis
        proof (cases "edge_loop g f e nx False")
          case (Inl err)
          with assms nx fm e show ?thesis by simp
        next
          case (Inr res)
          obtain g1 nx1 r where res: "res = (g1, nx1, r)" by (cases res) auto
          note run = Inr [unfolded res]
          show ?thesis
          proof (cases r)
            case False
            with assms nx fm e run have "node_loop g1 nx1 = Inr g'" by simp
            with nx fm e run False show ?thesis by (intro that [of nx f e g1 nx1 r g1]) auto
          next
            case True
            show ?thesis
            proof (cases "agdegree g1 n")
              case (Inl err)
              with assms nx fm e run True show ?thesis by simp
            next
              case deg: (Inr d)
              show ?thesis
              proof (cases "d = 0")
                case False
                with assms nx fm e run True deg have "node_loop g1 nx1 = Inr g'" by simp
                with nx fm e run True deg False show ?thesis
                  by (intro that [of nx f e g1 nx1 r g1]) auto
              next
                case d0: True
                show ?thesis
                proof (cases "agdelnode g1 n")
                  case (Inl err)
                  with assms nx fm e run True deg d0 show ?thesis by simp
                next
                  case (Inr g2)
                  with assms nx fm e run True deg d0 have "node_loop g2 nx1 = Inr g'" by simp
                  with nx fm e run True deg d0 Inr show ?thesis
                    by (intro that [of nx f e g1 nx1 r g2]) auto
                qed
              qed
            qed
          qed
        qed
      qed
    qed
  qed
qed

lemma node_loop_induct_Inr [consumes 1, case_names stop step]:
  assumes run: "node_loop g c = Inr g'"
    and A_stop: "\<And>g. P g None g"
    and A_step: "\<And>g n nx f e g1 nx1 r g2 g'.
      \<lbrakk>agnxtnode g n = Inr nx; agget g n ''file'' = Inr (Some f); agfstout g n = Inr e;
       edge_loop g f e nx False = Inr (g1, nx1, r);
       (r \<and> agdegree g1 n = Inr 0 \<and> agdelnode g1 n = Inr g2) \<or>
       ((\<not> r \<or> (\<exists>d. agdegree g1 n = Inr d \<and> 0 < d)) \<and> g2 = g1);
       node_loop g2 nx1 = Inr g'; P g2 nx1 g'\<rbrakk>
      \<Longrightarrow> P g (Some n) g'"
  shows "P g c g'"
  using run
proof (induction g c arbitrary: g' rule: node_loop.induct)
  case (1 g)
  then show ?case using A_stop by auto
next
  case (2 g n)
  from "2.prems" show ?case
  proof (cases rule: node_loop_Some_cases)
    case (1 nx f e g1 nx1 r g2)
    from 1(5) have "P g2 nx1 g'"
    proof (elim disjE conjE exE)
      assume r and "agdegree g1 n = Inr 0" and d: "agdelnode g1 n = Inr g2"
      with "2.IH"(1) [OF 1(1,2) refl 1(3,4) refl refl _ _ _ d 1(6)] show ?thesis by simp
    next
      assume "\<not> r" and "g2 = g1"
      with "2.IH"(3) [OF 1(1,2) refl 1(3,4) refl refl _ ] 1(6) show ?thesis by simp
    next
      fix d assume "agdegree g1 n = Inr d" and "0 < d" and "g2 = g1"
      with "2.IH"(2) [OF 1(1,2) refl 1(3,4) refl refl _ _ _ ] "2.IH"(3) [OF 1(1,2) refl 1(3,4) refl refl _ ] 1(6)
      show ?thesis by (cases r) auto
    qed
    with 1 show ?thesis by (intro A_step)
  qed
qed

lemma find_node_Some: "find_node g n = Some x \<Longrightarrow> live g n \<and> nseq x = n \<and> x \<in> set (nodes g)"
  unfolding find_node_def live_def node_ids_def
  by (auto simp: find_Some_iff)

lemma find_node_None: "find_node g n = None \<longleftrightarrow> \<not> live g n"
  unfolding find_node_def live_def node_ids_def
  by (auto simp: find_None_iff)

lemma agget_Inr:
  "agget g n a = Inr v \<longleftrightarrow> (\<exists>x. find_node g n = Some x \<and> v = map_of (nattrs x) a)"
  by (auto simp: agget_def split: option.splits)

lemma agget_file: "agget g n ''file'' = Inr v \<longleftrightarrow> live g n \<and> nfile g n = v"
  by (auto simp: agget_def nfile_def find_node_None split: option.splits dest: find_node_Some)

lemma find_filter_seq:
  "P n \<Longrightarrow> find (\<lambda>x. nseq x = n) (filter (\<lambda>x. P (nseq x)) xs) = find (\<lambda>x. nseq x = n) xs"
  by (induction xs) auto

lemma subgraph_find_node:
  assumes "subgraph g1 g" and "live g1 n"
  shows "find_node g1 n = find_node g n"
proof -
  from assms(1) obtain P where P: "nodes g1 = filter (\<lambda>x. P (nseq x)) (nodes g)"
    unfolding subgraph_def by blast
  with assms(2) have "P n" by (auto simp: live_def node_ids_def)
  with P show ?thesis by (simp add: find_node_def find_filter_seq)
qed

lemma same_attrs_refl [simp]: "same_attrs g g"
  by (simp add: same_attrs_def)

lemma same_attrs_subgraph: "subgraph g1 g \<Longrightarrow> same_attrs g g0 \<Longrightarrow> same_attrs g1 g0"
  unfolding same_attrs_def by (auto simp: subgraph_find_node dest: subgraph_live)

lemma same_attrs_nfile: "same_attrs g g0 \<Longrightarrow> live g n \<Longrightarrow> nfile g n = nfile g0 n"
  by (simp add: same_attrs_def nfile_def)

lemma subgraph_distinct_eseq:
  "subgraph g1 g \<Longrightarrow> distinct (map eseq (edges g)) \<Longrightarrow> distinct (map eseq (edges g1))"
  unfolding subgraph_def by (auto simp: distinct_map_filter)

lemma subgraph_distinct_ids:
  "subgraph g1 g \<Longrightarrow> distinct (node_ids g) \<Longrightarrow> distinct (node_ids g1)"
  unfolding subgraph_def node_ids_def by (auto simp: distinct_map_filter)

lemma agdelete_wf:
  assumes del: "agdelete g e = Inr g1" and wf: "wf_graph g"
  shows "wf_graph g1"
proof -
  note sub = agdelete_subgraph [OF del]
  have "live g1 (etail x) \<and> live g1 (ehead x)" if "x \<in> set (edges g1)" for x
    using that wf subgraph_edges [OF sub that]
    by (simp add: wf_graph_def agdelete_live [OF del])
  with wf sub show ?thesis
    by (simp add: wf_graph_def subgraph_distinct_eseq subgraph_distinct_ids)
qed

lemma agdelnode_wf:
  assumes del: "agdelnode g n = Inr g1" and wf: "wf_graph g"
  shows "wf_graph g1"
proof -
  note sub = agdelnode_subgraph [OF del]
  have "live g1 (etail x) \<and> live g1 (ehead x)" if "x \<in> set (edges g1)" for x
  proof -
    from that del have "x \<in> set (edges g)" and "etail x \<noteq> n" and "ehead x \<noteq> n"
      by (auto dest!: agdelnode_Inr)
    with wf show ?thesis by (simp add: wf_graph_def agdelnode_live [OF del])
  qed
  with wf sub show ?thesis
    by (simp add: wf_graph_def subgraph_distinct_eseq subgraph_distinct_ids)
qed

lemma edge_loop_wf: "edge_loop g f c nx r = Inr res \<Longrightarrow> wf_graph g \<Longrightarrow> wf_graph (fst res)"
  by (induction rule: edge_loop_induct_Inr) (auto dest: agdelete_wf agdelnode_wf)

lemma node_loop_wf: "node_loop g c = Inr g' \<Longrightarrow> wf_graph g \<Longrightarrow> wf_graph g'"
proof (induction rule: node_loop_induct_Inr)
  case (stop g)
  then show ?case by simp
next
  case (step g n nx f e g1 nx1 r g2 g')
  from edge_loop_wf [OF step(4)] step.prems have "wf_graph g1" by simp
  with step(5) have "wf_graph g2" by (auto dest: agdelnode_wf)
  with step show ?case by simp
qed

lemma node_loop_subgraph: "node_loop g c = Inr g' \<Longrightarrow> subgraph g' g"
proof (induction rule: node_loop_induct_Inr)
  case (stop g)
  then show ?case by simp
next
  case (step g n nx f e g1 nx1 r g2 g')
  from edge_loop_subgraph [OF step(4)] have "subgraph g1 g" by simp
  moreover from step(5) have "subgraph g2 g1" by (auto dest: agdelnode_subgraph)
  ultimately show ?case using step.IH by (blast intro: subgraph_trans)
qed

subsection \<open>The saved next node is the next live node\<close>

lemma agdelnode_ids:
  "agdelnode g m = Inr g2 \<Longrightarrow> node_ids g2 = filter (\<lambda>k. k \<noteq> m) (node_ids g)"
  by (auto simp: node_ids_def filter_map comp_def dest!: agdelnode_Inr)

lemma agdelete_ids: "agdelete g e = Inr g1 \<Longrightarrow> node_ids g1 = node_ids g"
  by (auto simp: node_ids_def dest!: agdelete_Inr)

lemma nxt_of_delnode_other:
  assumes del: "agdelnode g m = Inr g2" and "nxt_of g n \<noteq> Some m"
  shows "nxt_of g2 n = nxt_of g n"
proof (cases "nxt_of g n")
  case None
  then show ?thesis using del by (simp add: nxt_of_def agdelnode_ids filter_empty_conv)
next
  case (Some k)
  with assms(2) have "k \<noteq> m" by simp
  have "least (filter ((<) n) (filter (\<lambda>k. k \<noteq> m) (node_ids g))) = Some k"
  proof (rule least_eqI)
    from Some \<open>k \<noteq> m\<close> show "k \<in> set (filter ((<) n) (filter (\<lambda>k. k \<noteq> m) (node_ids g)))"
      by (auto simp: nxt_of_def dest: least_mem)
  next
    fix x assume "x \<in> set (filter ((<) n) (filter (\<lambda>k. k \<noteq> m) (node_ids g)))"
    with Some show "k \<le> x" by (auto simp: nxt_of_def intro: least_le)
  qed
  with Some del show ?thesis by (simp add: nxt_of_def agdelnode_ids)
qed

lemma nxt_of_delnode_same:
  assumes del: "agdelnode g m = Inr g2" and nx: "nxt_of g n = Some m"
  shows "nxt_of g2 n = nxt_of g m"
proof -
  from nx have m: "n < m" and le: "\<And>x. x \<in> set (node_ids g) \<Longrightarrow> n < x \<Longrightarrow> m \<le> x"
    by (auto simp: nxt_of_def dest: least_mem intro: least_le)
  have "filter ((<) n) (filter (\<lambda>k. k \<noteq> m) (node_ids g)) = filter ((<) m) (node_ids g)"
    unfolding filter_filter
  proof (rule filter_cong [OF refl])
    fix x assume "x \<in> set (node_ids g)"
    with m le [of x] show "(x \<noteq> m \<and> n < x) = (m < x)" by auto
  qed
  with del show ?thesis by (simp add: nxt_of_def agdelnode_ids)
qed

lemma edge_loop_nxt_of:
  "edge_loop g f c nx r = Inr res \<Longrightarrow> nx = nxt_of g n \<Longrightarrow> fst (snd res) = nxt_of (fst res) n"
proof (induction rule: edge_loop_induct_Inr)
  case (stop g nx r)
  then show ?case by simp
next
  case (skip g e nx r nxtout file_m res)
  then show ?case by simp
next
  case (keep g e nx r nxtout g1 d res)
  then show ?case by (simp add: nxt_of_def agdelete_ids)
next
  case (drop g e nx r nxtout g1 nx' g2 res)
  from drop(4) drop.prems have nx1: "nx = nxt_of g1 n" by (simp add: nxt_of_def agdelete_ids)
  have "nx' = nxt_of g2 n"
  proof (cases "nx = Some (aghead e)")
    case True
    with drop(6) have "nx' = nxt_of g1 (aghead e)" by (auto dest: agnxtnode_Inr)
    with nxt_of_delnode_same [OF drop(7), of n] True nx1 show ?thesis by simp
  next
    case False
    with drop(6) have "nx' = nx" by simp
    with nxt_of_delnode_other [OF drop(7), of n] False nx1 show ?thesis by simp
  qed
  with drop.IH show ?case by simp
qed

subsection \<open>Every out-edge is visited\<close>

lemma agnxtout_Inr:
  "agnxtout g e = Inr nxtout \<Longrightarrow>
     e \<in> set (edges g) \<and>
     least_edge (filter (\<lambda>e'. etail e' = etail e \<and> eseq e < eseq e') (edges g)) = nxtout"
  by (auto simp: agnxtout_def split: if_splits)

lemma agfstout_Inr:
  "agfstout g n = Inr c \<Longrightarrow> live g n \<and> least_edge (filter (\<lambda>e. etail e = n) (edges g)) = c"
  by (auto simp: agfstout_def split: if_splits)

lemma agfstout_tail: "agfstout g n = Inr (Some e) \<Longrightarrow> etail e = n \<and> e \<in> set (edges g)"
  by (auto dest!: agfstout_Inr dest: least_edge_mem)

lemma agfstout_first:
  assumes "agfstout g n = Inr c" and "e' \<in> set (edges g)" and "etail e' = n"
  shows "\<not> before c e'"
proof (cases c)
  case None
  with assms show ?thesis by (auto dest!: agfstout_Inr simp: filter_empty_conv)
next
  case (Some e)
  with assms have "least_edge (filter (\<lambda>e. etail e = n) (edges g)) = Some e"
    by (auto dest!: agfstout_Inr)
  from least_edge_le [OF this, of e'] assms Some show ?thesis by (simp add: before_def)
qed

lemma cursor_advance:
  assumes nxt: "agnxtout g e = Inr nxtout" and dist: "distinct (map eseq (edges g))"
    and e': "e' \<in> set (edges g)" "etail e' = etail e" and b: "before nxtout e'"
  shows "before (Some e) e' \<or> e' = e"
proof -
  from nxt have e: "e \<in> set (edges g)"
    and nxtout: "least_edge (filter (\<lambda>e'. etail e' = etail e \<and> eseq e < eseq e') (edges g)) = nxtout"
    by (auto dest!: agnxtout_Inr)
  consider "eseq e' < eseq e" | "eseq e' = eseq e" | "eseq e < eseq e'" by linarith
  then show ?thesis
  proof cases
    case 1
    then show ?thesis by (simp add: before_def)
  next
    case 2
    from dist have "inj_on eseq (set (edges g))" by (simp add: distinct_map)
    with 2 e e' have "e' = e" by (auto dest: inj_onD)
    then show ?thesis by simp
  next
    case 3
    with e' have mem: "e' \<in> set (filter (\<lambda>e'. etail e' = etail e \<and> eseq e < eseq e') (edges g))"
      by simp
    then obtain x where x: "nxtout = Some x"
      using nxtout by (cases nxtout) (auto simp: filter_empty_conv)
    from least_edge_le [OF nxtout [unfolded x] mem] b x have False
      by (simp add: before_def)
    then show ?thesis ..
  qed
qed

lemma intra_test:
  assumes "nfile g0 (etail e) = Some f" and "same_attrs g g0"
    and "agget g (aghead e) ''file'' = Inr (Some file_m)"
  shows "intra g0 e \<longleftrightarrow> \<not> (f = [] \<or> file_m = [] \<or> f \<noteq> file_m)"
proof -
  from assms(3) have "live g (ehead e)" and "nfile g (ehead e) = Some file_m"
    by (auto simp: agget_file aghead_def)
  with assms(2) have "nfile g0 (ehead e) = Some file_m" by (simp add: same_attrs_nfile)
  with assms(1) show ?thesis by (auto simp: intra_def)
qed

lemma edge_loop_clean:
  "edge_loop g f c nx r = Inr res \<Longrightarrow> same_attrs g g0 \<Longrightarrow> nfile g0 n = Some f \<Longrightarrow>
   distinct (map eseq (edges g)) \<Longrightarrow> (\<And>e. c = Some e \<Longrightarrow> etail e = n) \<Longrightarrow>
   (\<And>e'. e' \<in> set (edges g) \<Longrightarrow> etail e' = n \<Longrightarrow> before c e' \<Longrightarrow> \<not> intra g0 e') \<Longrightarrow>
   e' \<in> set (edges (fst res)) \<Longrightarrow> etail e' = n \<Longrightarrow> \<not> intra g0 e'"
proof (induction arbitrary: e' rule: edge_loop_induct_Inr)
  case (stop g nx r)
  then show ?case by (simp add: before_def)
next
  case (skip g e nx r nxtout file_m res)
  have tl: "etail e = n" using skip.prems(4) by simp
  have ne: "\<not> intra g0 e"
    using intra_test [of g0 e f g file_m] skip(2,3) skip.prems(1,2) tl by simp
  show ?case
  proof (rule skip.IH [OF skip.prems(1,2,3) _ _ skip.prems(6,7)])
    fix x assume "nxtout = Some x"
    with skip(1) tl show "etail x = n" by (auto dest: agnxtout_Some)
  next
    fix x assume x: "x \<in> set (edges g)" "etail x = n" "before nxtout x"
    with cursor_advance [OF skip(1) skip.prems(3), of x] tl
    have "before (Some e) x \<or> x = e" by simp
    with ne skip.prems(5) [OF x(1,2)] show "\<not> intra g0 x" by auto
  qed
next
  case (keep g e nx r nxtout g1 d res)
  have tl: "etail e = n" using keep.prems(4) by simp
  note sub = agdelete_subgraph [OF keep(4)]
  show ?case
  proof (rule keep.IH [OF same_attrs_subgraph [OF sub keep.prems(1)] keep.prems(2)
        subgraph_distinct_eseq [OF sub keep.prems(3)] _ _ keep.prems(6,7)])
    fix x assume "nxtout = Some x"
    with keep(1) tl show "etail x = n" by (auto dest: agnxtout_Some)
  next
    fix x assume x: "x \<in> set (edges g1)" "etail x = n" "before nxtout x"
    with keep(4) have xg: "x \<in> set (edges g)" "x \<noteq> e" by (auto dest!: agdelete_Inr)
    with cursor_advance [OF keep(1) keep.prems(3), of x] tl x
    have "before (Some e) x" by simp
    with keep.prems(5) [OF xg(1) x(2)] show "\<not> intra g0 x" by simp
  qed
next
  case (drop g e nx r nxtout g1 nx' g2 res)
  have tl: "etail e = n" using drop.prems(4) by simp
  have sub: "subgraph g2 g"
    using agdelete_subgraph [OF drop(4)] agdelnode_subgraph [OF drop(7)]
    by (rule subgraph_trans [rotated])
  show ?case
  proof (rule drop.IH [OF same_attrs_subgraph [OF sub drop.prems(1)] drop.prems(2)
        subgraph_distinct_eseq [OF sub drop.prems(3)] _ _ drop.prems(6,7)])
    fix x assume "nxtout = Some x"
    with drop(1) tl show "etail x = n" by (auto dest: agnxtout_Some)
  next
    fix x assume x: "x \<in> set (edges g2)" "etail x = n" "before nxtout x"
    with drop(4,7) have xg: "x \<in> set (edges g)" "x \<noteq> e"
      by (auto dest!: agdelete_Inr agdelnode_Inr)
    with cursor_advance [OF drop(1) drop.prems(3), of x] tl x
    have "before (Some e) x" by simp
    with drop.prems(5) [OF xg(1) x(2)] show "\<not> intra g0 x" by simp
  qed
qed

lemma nxt_of_bound:
  assumes "live g t" and "case nxt_of g n of None \<Rightarrow> True | Some k \<Rightarrow> t < k"
  shows "t \<le> n"
proof (rule ccontr)
  assume "\<not> t \<le> n"
  with assms(1) have mem: "t \<in> set (filter ((<) n) (node_ids g))" by (simp add: live_def)
  then obtain k where k: "nxt_of g n = Some k"
    by (cases "nxt_of g n") (auto simp: nxt_of_def filter_empty_conv)
  from least_le [OF k [unfolded nxt_of_def] mem] assms(2) k show False by simp
qed

lemma nxt_of_greater: "nxt_of g n = Some k \<Longrightarrow> n < k \<and> live g k"
  by (auto simp: nxt_of_def live_def dest: least_mem)

lemma node_step_nxt:
  assumes nx: "agnxtnode g n = Inr nx"
    and run: "edge_loop g f e nx False = Inr (g1, nx1, r)"
    and post: "(r \<and> agdegree g1 n = Inr 0 \<and> agdelnode g1 n = Inr g2) \<or>
       ((\<not> r \<or> (\<exists>d. agdegree g1 n = Inr d \<and> 0 < d)) \<and> g2 = g1)"
  shows "nx1 = nxt_of g2 n"
proof -
  from nx have "nx = nxt_of g n" by (auto dest: agnxtnode_Inr)
  from edge_loop_nxt_of [OF run this] have nx1: "nx1 = nxt_of g1 n" by simp
  from post show ?thesis
  proof
    assume "r \<and> agdegree g1 n = Inr 0 \<and> agdelnode g1 n = Inr g2"
    then have del: "agdelnode g1 n = Inr g2" by simp
    have "nxt_of g1 n \<noteq> Some n" by (auto dest: nxt_of_greater)
    from nxt_of_delnode_other [OF del this] nx1 show ?thesis by simp
  next
    assume "(\<not> r \<or> (\<exists>d. agdegree g1 n = Inr d \<and> 0 < d)) \<and> g2 = g1"
    with nx1 show ?thesis by simp
  qed
qed

lemma node_step_subgraph:
  assumes run: "edge_loop g f e nx False = Inr (g1, nx1, r)"
    and post: "(r \<and> agdegree g1 n = Inr 0 \<and> agdelnode g1 n = Inr g2) \<or>
       ((\<not> r \<or> (\<exists>d. agdegree g1 n = Inr d \<and> 0 < d)) \<and> g2 = g1)"
  shows "subgraph g1 g" and "subgraph g2 g1" and "subgraph g2 g"
proof -
  from edge_loop_subgraph [OF run] show 1: "subgraph g1 g" by simp
  from post show 2: "subgraph g2 g1" by (auto dest: agdelnode_subgraph)
  from 2 1 show "subgraph g2 g" by (rule subgraph_trans)
qed

lemma node_step_wf:
  assumes run: "edge_loop g f e nx False = Inr (g1, nx1, r)"
    and post: "(r \<and> agdegree g1 n = Inr 0 \<and> agdelnode g1 n = Inr g2) \<or>
       ((\<not> r \<or> (\<exists>d. agdegree g1 n = Inr d \<and> 0 < d)) \<and> g2 = g1)"
    and wf: "wf_graph g"
  shows "wf_graph g2"
proof -
  from edge_loop_wf [OF run wf] have "wf_graph g1" by simp
  with post show ?thesis by (auto dest: agdelnode_wf)
qed

lemma node_loop_clean:
  "node_loop g c = Inr g' \<Longrightarrow> wf_graph g \<Longrightarrow> same_attrs g g0 \<Longrightarrow>
   (\<And>e. e \<in> set (edges g) \<Longrightarrow> tail_before c e \<Longrightarrow> \<not> intra g0 e) \<Longrightarrow>
   e \<in> set (edges g') \<Longrightarrow> \<not> intra g0 e"
proof (induction arbitrary: e rule: node_loop_induct_Inr)
  case (stop g)
  then show ?case by (simp add: tail_before_def)
next
  case (step g n nx f c g1 nx1 r g2 g')
  note sub = node_step_subgraph [OF step(4,5)]
  note wf2 = node_step_wf [OF step(4,5) step.prems(1)]
  note nx1 = node_step_nxt [OF step(1,4,5)]
  from step(2) step.prems(2) have fn: "nfile g0 n = Some f"
    by (auto simp: agget_file same_attrs_nfile)
  from step.prems(1) have dist: "distinct (map eseq (edges g))" by (simp add: wf_graph_def)
  have out: "\<not> intra g0 x" if "x \<in> set (edges g1)" "etail x = n" for x
  proof (rule edge_loop_clean [OF step(4) step.prems(2) fn dist])
    fix y assume "c = Some y"
    with step(3) show "etail y = n" by (auto dest: agfstout_tail)
  next
    fix y assume "y \<in> set (edges g)" "etail y = n" "before c y"
    with agfstout_first [OF step(3), of y] show "\<not> intra g0 y" by simp
  qed (use that in simp_all)
  show ?case
  proof (rule step.IH [OF wf2 same_attrs_subgraph [OF sub(3) step.prems(2)] _ step.prems(4)])
    fix x assume x: "x \<in> set (edges g2)" "tail_before nx1 x"
    from wf2 x(1) have "live g2 (etail x)" by (simp add: wf_graph_def)
    from nxt_of_bound [OF this, of n] x(2) nx1 have "etail x \<le> n"
      by (simp add: tail_before_def)
    then consider "etail x < n" | "etail x = n" by linarith
    then show "\<not> intra g0 x"
    proof cases
      case 1
      with step.prems(3) [of x] subgraph_edges [OF sub(3) x(1)] show ?thesis
        by (simp add: tail_before_def)
    next
      case 2
      with out [of x] subgraph_edges [OF sub(2) x(1)] show ?thesis by simp
    qed
  qed
qed

lemma intra_subgraph:
  assumes "subgraph g1 g" and "intra g1 e"
  shows "intra g e"
proof -
  have "nfile g k = Some a" if "nfile g1 k = Some a" for k a
  proof -
    from that have "live g1 k" by (auto simp: nfile_def split: option.splits dest: find_node_Some)
    with same_attrs_subgraph [OF assms(1) same_attrs_refl] that show ?thesis
      by (simp add: same_attrs_nfile)
  qed
  with assms(2) show ?thesis by (auto simp: intra_def split: option.splits)
qed

lemma agfstnode_first:
  assumes "wf_graph g" and "e \<in> set (edges g)"
  shows "\<not> tail_before (agfstnode g) e"
proof -
  from assms have t: "etail e \<in> set (node_ids g)" by (simp add: wf_graph_def live_def)
  then obtain k where k: "least (node_ids g) = Some k" by (cases "least (node_ids g)") auto
  from least_le [OF k t] k show ?thesis by (simp add: tail_before_def agfstnode_def)
qed

lemma reducer_clean:
  assumes "wf_graph g" and "graph_remove_intra_edges g = Inr g'" and e: "e \<in> set (edges g')"
  shows "\<not> intra g' e"
proof -
  from assms(2) have run: "node_loop g (agfstnode g) = Inr g'"
    by (simp add: graph_remove_intra_edges_def)
  have "\<not> intra g e"
  proof (rule node_loop_clean [OF run assms(1) same_attrs_refl _ e])
    fix x assume "x \<in> set (edges g)" "tail_before (agfstnode g) x"
    with agfstnode_first [OF assms(1)] show "\<not> intra g x" by blast
  qed
  with intra_subgraph [OF node_loop_subgraph [OF run]] show "\<not> intra g' e" by blast
qed

text \<open>
  C3. After the Intra-Edge Reducer has run on a well-formed graph, no surviving edge joins
  two nodes with the same non-empty \<open>file\<close>: for every surviving edge the files of its
  ends differ or one of them is empty.
\<close>

theorem reducer_leaves_no_intra_edge:
  assumes "wf_graph g" and "graph_remove_intra_edges g = Inr g'"
  shows "\<forall>e \<in> set (edges g'). \<not> intra g' e"
  using reducer_clean [OF assms] by blast

theorem reducer_leaves_no_intra_edge_witness:
  "wf_graph ex_spec \<and> graph_remove_intra_edges ex_spec = Inr ex_spec_reduced \<and>
   intra ex_spec (mk_edge 1 1 2 []) \<and>
   \<not> intra ex_spec_reduced (mk_edge 2 2 3 [(''value'', ''7'')])"
proof -
  have wf: "wf_graph ex_spec" by code_simp
  have run: "graph_remove_intra_edges ex_spec = Inr ex_spec_reduced" by code_simp
  have i: "intra ex_spec (mk_edge 1 1 2 [])" by code_simp
  have "mk_edge 2 2 3 [(''value'', ''7'')] \<in> set (edges ex_spec_reduced)" by code_simp
  with reducer_leaves_no_intra_edge [OF wf run] wf run i show ?thesis by blast
qed

subsection \<open>Every node of a completed run has a file\<close>

lemma edge_loop_deleted_file:
  "edge_loop g f c nx r = Inr res \<Longrightarrow> same_attrs g g0 \<Longrightarrow> live g k \<Longrightarrow>
   \<not> live (fst res) k \<Longrightarrow> nfile g0 k = Some f"
proof (induction rule: edge_loop_induct_Inr)
  case (stop g nx r)
  then show ?case by simp
next
  case (skip g e nx r nxtout file_m res)
  then show ?case by simp
next
  case (keep g e nx r nxtout g1 d res)
  note sub = agdelete_subgraph [OF keep(4)]
  from keep.prems(2) have "live g1 k" by (simp add: agdelete_live [OF keep(4)])
  with keep.IH [OF same_attrs_subgraph [OF sub keep.prems(1)]] keep.prems(3)
  show ?case by simp
next
  case (drop g e nx r nxtout g1 nx' g2 res)
  have sub: "subgraph g2 g"
    using agdelete_subgraph [OF drop(4)] agdelnode_subgraph [OF drop(7)]
    by (rule subgraph_trans [rotated])
  show ?case
  proof (cases "k = aghead e")
    case True
    from drop(2) have "live g (aghead e)" and "nfile g (aghead e) = Some f"
      by (simp_all add: agget_file)
    with drop.prems(1) True show ?thesis by (simp add: same_attrs_nfile)
  next
    case False
    with drop.prems(2) have "live g2 k"
      by (simp add: agdelnode_live [OF drop(7)] agdelete_live [OF drop(4)])
    with drop.IH [OF same_attrs_subgraph [OF sub drop.prems(1)]] drop.prems(3)
    show ?thesis by simp
  qed
qed

lemma node_loop_files:
  "node_loop g c = Inr g' \<Longrightarrow> same_attrs g g0 \<Longrightarrow> live g k \<Longrightarrow> at_or_after c k \<Longrightarrow>
   nfile g0 k \<noteq> None"
proof (induction rule: node_loop_induct_Inr)
  case (stop g)
  then show ?case by (simp add: at_or_after_def)
next
  case (step g n nx f c g1 nx1 r g2 g')
  note sub = node_step_subgraph [OF step(4,5)]
  note nx1 = node_step_nxt [OF step(1,4,5)]
  from step(2) step.prems(1) have fn: "nfile g0 n = Some f"
    by (auto simp: agget_file same_attrs_nfile)
  show ?case
  proof (cases "k = n")
    case True
    with fn show ?thesis by simp
  next
    case False
    with step.prems(3) have nk: "n < k" by (simp add: at_or_after_def)
    show ?thesis
    proof (cases "live g1 k")
      case False
      with edge_loop_deleted_file [OF step(4) step.prems(1,2)] show ?thesis by simp
    next
      case True
      with step(5) nk have l2: "live g2 k" by (auto simp: agdelnode_live)
      have "at_or_after nx1 k"
      proof (rule ccontr)
        assume "\<not> at_or_after nx1 k"
        then have "case nxt_of g2 n of None \<Rightarrow> True | Some j \<Rightarrow> k < j"
          using nx1 by (auto simp: at_or_after_def split: option.splits)
        from nxt_of_bound [OF l2 this] nk show False by simp
      qed
      from step.IH [OF same_attrs_subgraph [OF sub(3) step.prems(1)] l2 this]
      show ?thesis .
    qed
  qed
qed

lemma agfstnode_at_or_after: "live g k \<Longrightarrow> at_or_after (agfstnode g) k"
proof -
  assume "live g k"
  then have k: "k \<in> set (node_ids g)" by (simp add: live_def)
  then obtain j where j: "least (node_ids g) = Some j" by (cases "least (node_ids g)") auto
  from least_le [OF j k] j show ?thesis by (simp add: at_or_after_def agfstnode_def)
qed

lemma reducer_files:
  assumes "graph_remove_intra_edges g = Inr g'" and "live g k"
  shows "nfile g k \<noteq> None"
  using assms node_loop_files [OF _ same_attrs_refl assms(2) agfstnode_at_or_after [OF assms(2)]]
  by (simp add: graph_remove_intra_edges_def)

subsection \<open>A graph without intra-file edges is left as it is\<close>

lemma all_files_nfile: "all_files g \<Longrightarrow> live g k \<Longrightarrow> \<exists>f. nfile g k = Some f"
  by (auto simp: all_files_def nfile_def find_node_None split: option.splits
      dest!: find_node_Some)

lemma edge_loop_noop:
  "wf_graph g \<Longrightarrow> all_files g \<Longrightarrow> nfile g n = Some f \<Longrightarrow>
   (\<And>e. e \<in> set (edges g) \<Longrightarrow> \<not> intra g e) \<Longrightarrow>
   (\<And>e. c = Some e \<Longrightarrow> e \<in> set (edges g) \<and> etail e = n) \<Longrightarrow>
   edge_loop g f c nx r = Inr (g, nx, r)"
proof (induction g f c nx r rule: edge_loop.induct)
  case (1 g file_n nxtnode isreduced)
  show ?case by simp
next
  case (2 g file_n e nxtnode isreduced)
  from "2.prems"(5) have e: "e \<in> set (edges g)" "etail e = n" by simp_all
  then obtain nxtout where nxt: "agnxtout g e = Inr nxtout" by (simp add: agnxtout_def)
  from e "2.prems"(1) have "live g (aghead e)" by (simp add: wf_graph_def aghead_def)
  with all_files_nfile [OF "2.prems"(2)] obtain file_m
    where fm: "agget g (aghead e) ''file'' = Inr (Some file_m)"
    by (auto simp: agget_file)
  from intra_test [OF _ same_attrs_refl fm, of file_n] "2.prems"(3,4) e
  have test: "file_n = [] \<or> file_m = [] \<or> file_n \<noteq> file_m" by auto
  have "edge_loop g file_n nxtout nxtnode isreduced = Inr (g, nxtnode, isreduced)"
  proof (rule "2.IH"(1) [OF nxt fm refl _ "2.prems"(1,2,3,4)])
    show "length file_n = 0 \<or> length file_m = 0 \<or> file_n \<noteq> file_m" using test by simp
  next
    fix x assume "nxtout = Some x"
    with nxt e show "x \<in> set (edges g) \<and> etail x = n" by (auto dest: agnxtout_Some)
  qed
  with nxt fm test show ?case by auto
qed

lemma node_loop_noop:
  "wf_graph g \<Longrightarrow> all_files g \<Longrightarrow> (\<And>e. e \<in> set (edges g) \<Longrightarrow> \<not> intra g e) \<Longrightarrow>
   (\<And>n. c = Some n \<Longrightarrow> live g n) \<Longrightarrow> node_loop g c = Inr g"
proof (induction g c rule: node_loop.induct)
  case (1 g)
  show ?case by simp
next
  case (2 g n)
  from "2.prems"(4) have n: "live g n" by simp
  then have nx: "agnxtnode g n = Inr (nxt_of g n)" by (simp add: agnxtnode_def)
  from all_files_nfile [OF "2.prems"(2) n] obtain f where f: "nfile g n = Some f" by blast
  with n have fn: "agget g n ''file'' = Inr (Some f)" by (simp add: agget_file)
  from n obtain c where c: "agfstout g n = Inr c" by (simp add: agfstout_def)
  have run: "edge_loop g f c (nxt_of g n) False = Inr (g, nxt_of g n, False)"
  proof (rule edge_loop_noop [OF "2.prems"(1,2) f "2.prems"(3)])
    fix e assume "c = Some e"
    with c show "e \<in> set (edges g) \<and> etail e = n" by (auto dest: agfstout_tail)
  qed
  have "node_loop g (nxt_of g n) = Inr g"
  proof (rule "2.IH"(3) [OF nx fn refl c run refl refl _ "2.prems"(1,2,3)])
    fix k assume "nxt_of g n = Some k"
    then show "live g k" by (auto dest: nxt_of_greater)
  qed simp
  with nx fn c run show ?case by simp
qed

lemma find_distinct_seq:
  "distinct (map nseq xs) \<Longrightarrow> x \<in> set xs \<Longrightarrow> find (\<lambda>y. nseq y = nseq x) xs = Some x"
  by (induction xs) (auto simp: rev_image_eqI)

lemma wf_find_node: "wf_graph g \<Longrightarrow> x \<in> set (nodes g) \<Longrightarrow> find_node g (nseq x) = Some x"
  by (simp add: wf_graph_def node_ids_def find_node_def find_distinct_seq)

lemma reducer_all_files:
  assumes wf: "wf_graph g" and run: "graph_remove_intra_edges g = Inr g'"
  shows "all_files g'"
  unfolding all_files_def
proof
  fix x assume x: "x \<in> set (nodes g')"
  from run have loop: "node_loop g (agfstnode g) = Inr g'"
    by (simp add: graph_remove_intra_edges_def)
  note sub = node_loop_subgraph [OF loop]
  note wf' = node_loop_wf [OF loop wf]
  from x have l': "live g' (nseq x)" by (auto simp: live_def node_ids_def)
  then have "live g (nseq x)" using sub by (rule subgraph_live [rotated])
  from reducer_files [OF run this] have "nfile g (nseq x) \<noteq> None" .
  moreover from same_attrs_subgraph [OF sub same_attrs_refl] l'
  have "nfile g' (nseq x) = nfile g (nseq x)" by (simp add: same_attrs_nfile)
  ultimately show "map_of (nattrs x) ''file'' \<noteq> None"
    using wf_find_node [OF wf' x] by (simp add: nfile_def)
qed

lemma agfstnode_live: "agfstnode g = Some n \<Longrightarrow> live g n"
  by (auto simp: agfstnode_def live_def dest: least_mem)

text \<open>
  C7. Running the Intra-Edge Reducer on the graph it has produced changes nothing: the
  second pass finds no intra-file edge, and deletes no edge and no node.
\<close>

theorem reducer_idempotent:
  assumes "wf_graph g" and "graph_remove_intra_edges g = Inr g'"
  shows "graph_remove_intra_edges g' = Inr g'"
proof -
  from assms(2) have loop: "node_loop g (agfstnode g) = Inr g'"
    by (simp add: graph_remove_intra_edges_def)
  have "node_loop g' (agfstnode g') = Inr g'"
  proof (rule node_loop_noop [OF node_loop_wf [OF loop assms(1)] reducer_all_files [OF assms]])
    fix e assume "e \<in> set (edges g')"
    then show "\<not> intra g' e" by (rule reducer_clean [OF assms])
  next
    fix n assume "agfstnode g' = Some n"
    then show "live g' n" by (rule agfstnode_live)
  qed
  then show ?thesis by (simp add: graph_remove_intra_edges_def)
qed

theorem reducer_idempotent_witness:
  "wf_graph ex_spec \<and> graph_remove_intra_edges ex_spec = Inr ex_spec_reduced \<and>
   graph_remove_intra_edges ex_spec_reduced = Inr ex_spec_reduced \<and>
   ex_spec_reduced \<noteq> ex_spec"
proof -
  have wf: "wf_graph ex_spec" by code_simp
  have run: "graph_remove_intra_edges ex_spec = Inr ex_spec_reduced" by code_simp
  have ne: "ex_spec_reduced \<noteq> ex_spec" by code_simp
  from reducer_idempotent [OF wf run] wf run ne show ?thesis by simp
qed

subsection \<open>What the reducer deletes\<close>

lemma agdelnode_isolated:
  assumes "agdegree g m = Inr 0" and "agdelnode g m = Inr g2"
  shows "edges g2 = edges g"
proof -
  from assms(1) have "filter (\<lambda>e. etail e = m) (edges g) = []"
    and "filter (\<lambda>e. ehead e = m) (edges g) = []"
    by (auto simp: agdegree_def split: if_splits)
  then have "\<forall>e \<in> set (edges g). etail e \<noteq> m \<and> ehead e \<noteq> m"
    by (auto simp: filter_empty_conv)
  with assms(2) show ?thesis by (auto dest!: agdelnode_Inr)
qed

lemma edge_loop_result_edges:
  assumes "edge_loop g f c nx r = Inr res" and "x \<in> set (edges (fst res))"
  shows "x \<in> set (edges g)"
  using edge_loop_subgraph [OF assms(1)] assms(2) by (rule subgraph_edges)

lemma edge_loop_removed_edges:
  "edge_loop g f c nx r = Inr res \<Longrightarrow> same_attrs g g0 \<Longrightarrow> nfile g0 n = Some f \<Longrightarrow>
   (\<And>e. c = Some e \<Longrightarrow> etail e = n) \<Longrightarrow>
   x \<in> set (edges g) \<Longrightarrow> x \<notin> set (edges (fst res)) \<Longrightarrow> intra g0 x \<and> etail x = n"
proof (induction rule: edge_loop_induct_Inr)
  case (stop g nx r)
  then show ?case by simp
next
  case (skip g e nx r nxtout file_m res)
  have tl: "etail e = n" using skip.prems(3) by simp
  show ?case
  proof (rule skip.IH [OF skip.prems(1,2) _ skip.prems(4,5)])
    fix y assume "nxtout = Some y"
    with skip(1) tl show "etail y = n" by (auto dest: agnxtout_Some)
  qed
next
  case (keep g e nx r nxtout g1 d res)
  have tl: "etail e = n" using keep.prems(3) by simp
  note sub = agdelete_subgraph [OF keep(4)]
  show ?case
  proof (cases "x = e")
    case True
    with intra_test [of g0 e f g f] keep(2,3) keep.prems(1,2) tl show ?thesis by simp
  next
    case False
    with keep(4) keep.prems(4) have xg: "x \<in> set (edges g1)" by (auto dest!: agdelete_Inr)
    show ?thesis
    proof (rule keep.IH [OF same_attrs_subgraph [OF sub keep.prems(1)] keep.prems(2) _ xg
          keep.prems(5)])
      fix y assume "nxtout = Some y"
      with keep(1) tl show "etail y = n" by (auto dest: agnxtout_Some)
    qed
  qed
next
  case (drop g e nx r nxtout g1 nx' g2 res)
  have tl: "etail e = n" using drop.prems(3) by simp
  have sub: "subgraph g2 g"
    using agdelete_subgraph [OF drop(4)] agdelnode_subgraph [OF drop(7)]
    by (rule subgraph_trans [rotated])
  show ?case
  proof (cases "x = e")
    case True
    with intra_test [of g0 e f g f] drop(2,3) drop.prems(1,2) tl show ?thesis by simp
  next
    case False
    with drop(4) drop.prems(4) have "x \<in> set (edges g1)" by (auto dest!: agdelete_Inr)
    with agdelnode_isolated [OF drop(5,7)] have xg: "x \<in> set (edges g2)" by simp
    show ?thesis
    proof (rule drop.IH [OF same_attrs_subgraph [OF sub drop.prems(1)] drop.prems(2) _ xg
          drop.prems(5)])
      fix y assume "nxtout = Some y"
      with drop(1) tl show "etail y = n" by (auto dest: agnxtout_Some)
    qed
  qed
qed

lemma edge_loop_removed_nodes:
  "edge_loop g f c nx r = Inr res \<Longrightarrow> same_attrs g g0 \<Longrightarrow> nfile g0 n = Some f \<Longrightarrow>
   (\<And>e. c = Some e \<Longrightarrow> etail e = n) \<Longrightarrow> live g k \<Longrightarrow> \<not> live (fst res) k \<Longrightarrow>
   \<exists>x \<in> set (edges g). x \<notin> set (edges (fst res)) \<and> intra g0 x \<and> ehead x = k"
proof (induction rule: edge_loop_induct_Inr)
  case (stop g nx r)
  then show ?case by simp
next
  case (skip g e nx r nxtout file_m res)
  have tl: "etail e = n" using skip.prems(3) by simp
  show ?case
  proof (rule skip.IH [OF skip.prems(1,2) _ skip.prems(4,5)])
    fix y assume "nxtout = Some y"
    with skip(1) tl show "etail y = n" by (auto dest: agnxtout_Some)
  qed
next
  case (keep g e nx r nxtout g1 d res)
  have tl: "etail e = n" using keep.prems(3) by simp
  note sub = agdelete_subgraph [OF keep(4)]
  from keep.prems(4) have l1: "live g1 k" by (simp add: agdelete_live [OF keep(4)])
  have "\<exists>x \<in> set (edges g1). x \<notin> set (edges (fst res)) \<and> intra g0 x \<and> ehead x = k"
  proof (rule keep.IH [OF same_attrs_subgraph [OF sub keep.prems(1)] keep.prems(2) _ l1
        keep.prems(5)])
    fix y assume "nxtout = Some y"
    with keep(1) tl show "etail y = n" by (auto dest: agnxtout_Some)
  qed
  with subgraph_edges [OF sub] show ?case by blast
next
  case (drop g e nx r nxtout g1 nx' g2 res)
  have tl: "etail e = n" using drop.prems(3) by simp
  have sub: "subgraph g2 g"
    using agdelete_subgraph [OF drop(4)] agdelnode_subgraph [OF drop(7)]
    by (rule subgraph_trans [rotated])
  show ?case
  proof (cases "k = aghead e")
    case True
    from drop(4) have eg: "e \<in> set (edges g)" and "e \<notin> set (edges g1)"
      by (auto dest!: agdelete_Inr)
    with drop(7) have "e \<notin> set (edges g2)" by (auto dest!: agdelnode_Inr)
    with edge_loop_result_edges [OF drop(8)] have "e \<notin> set (edges (fst res))" by blast
    moreover from intra_test [of g0 e f g f] drop(2,3) drop.prems(1,2) tl
    have "intra g0 e" by simp
    ultimately show ?thesis using eg True by (auto simp: aghead_def)
  next
    case False
    with drop.prems(4) have l2: "live g2 k"
      by (simp add: agdelnode_live [OF drop(7)] agdelete_live [OF drop(4)])
    have "\<exists>x \<in> set (edges g2). x \<notin> set (edges (fst res)) \<and> intra g0 x \<and> ehead x = k"
    proof (rule drop.IH [OF same_attrs_subgraph [OF sub drop.prems(1)] drop.prems(2) _ l2
          drop.prems(5)])
      fix y assume "nxtout = Some y"
      with drop(1) tl show "etail y = n" by (auto dest: agnxtout_Some)
    qed
    with subgraph_edges [OF sub] show ?thesis by blast
  qed
qed

lemma edge_loop_isreduced:
  "edge_loop g f c nx r = Inr res \<Longrightarrow> same_attrs g g0 \<Longrightarrow> nfile g0 n = Some f \<Longrightarrow>
   (\<And>e. c = Some e \<Longrightarrow> etail e = n) \<Longrightarrow> snd (snd res) \<Longrightarrow> \<not> r \<Longrightarrow>
   \<exists>x \<in> set (edges g). x \<notin> set (edges (fst res)) \<and> intra g0 x \<and> etail x = n"
proof (induction rule: edge_loop_induct_Inr)
  case (stop g nx r)
  then show ?case by simp
next
  case (skip g e nx r nxtout file_m res)
  have tl: "etail e = n" using skip.prems(3) by simp
  show ?case
  proof (rule skip.IH [OF skip.prems(1,2) _ skip.prems(4,5)])
    fix y assume "nxtout = Some y"
    with skip(1) tl show "etail y = n" by (auto dest: agnxtout_Some)
  qed
next
  case (keep g e nx r nxtout g1 d res)
  have tl: "etail e = n" using keep.prems(3) by simp
  from keep(4) have eg: "e \<in> set (edges g)" and "e \<notin> set (edges g1)"
    by (auto dest!: agdelete_Inr)
  with edge_loop_result_edges [OF keep(7)] have "e \<notin> set (edges (fst res))" by blast
  moreover from intra_test [of g0 e f g f] keep(2,3) keep.prems(1,2) tl
  have "intra g0 e" by simp
  ultimately show ?case using eg tl by blast
next
  case (drop g e nx r nxtout g1 nx' g2 res)
  have tl: "etail e = n" using drop.prems(3) by simp
  from drop(4) have eg: "e \<in> set (edges g)" and "e \<notin> set (edges g1)"
    by (auto dest!: agdelete_Inr)
  with drop(7) have "e \<notin> set (edges g2)" by (auto dest!: agdelnode_Inr)
  with edge_loop_result_edges [OF drop(8)] have "e \<notin> set (edges (fst res))" by blast
  moreover from intra_test [of g0 e f g f] drop(2,3) drop.prems(1,2) tl
  have "intra g0 e" by simp
  ultimately show ?case using eg tl by blast
qed

lemma node_step_edges:
  assumes post: "(r \<and> agdegree g1 n = Inr 0 \<and> agdelnode g1 n = Inr g2) \<or>
       ((\<not> r \<or> (\<exists>d. agdegree g1 n = Inr d \<and> 0 < d)) \<and> g2 = g1)"
  shows "edges g2 = edges g1"
  using post by (auto dest: agdelnode_isolated)

lemma node_loop_removed_edges:
  "node_loop g c = Inr g' \<Longrightarrow> same_attrs g g0 \<Longrightarrow> x \<in> set (edges g) \<Longrightarrow>
   x \<notin> set (edges g') \<Longrightarrow> intra g0 x"
proof (induction rule: node_loop_induct_Inr)
  case (stop g)
  then show ?case by simp
next
  case (step g n nx f c g1 nx1 r g2 g')
  note sub = node_step_subgraph [OF step(4,5)]
  from step(2) step.prems(1) have fn: "nfile g0 n = Some f"
    by (auto simp: agget_file same_attrs_nfile)
  have cur: "etail y = n" if "c = Some y" for y
    using that step(3) by (auto dest: agfstout_tail)
  show ?case
  proof (cases "x \<in> set (edges g1)")
    case False
    with edge_loop_removed_edges [OF step(4) step.prems(1) fn cur step.prems(2)]
    show ?thesis by simp
  next
    case True
    with node_step_edges [OF step(5)] have "x \<in> set (edges g2)" by simp
    from step.IH [OF same_attrs_subgraph [OF sub(3) step.prems(1)] this step.prems(3)]
    show ?thesis .
  qed
qed

lemma node_loop_removed_nodes:
  "node_loop g c = Inr g' \<Longrightarrow> same_attrs g g0 \<Longrightarrow> live g k \<Longrightarrow> \<not> live g' k \<Longrightarrow>
   \<exists>x \<in> set (edges g). x \<notin> set (edges g') \<and> intra g0 x \<and> (etail x = k \<or> ehead x = k)"
proof (induction rule: node_loop_induct_Inr)
  case (stop g)
  then show ?case by simp
next
  case (step g n nx f c g1 nx1 r g2 g')
  note sub = node_step_subgraph [OF step(4,5)]
  note rest = subgraph_edges [OF node_loop_subgraph [OF step(6)]]
  from step(2) step.prems(1) have fn: "nfile g0 n = Some f"
    by (auto simp: agget_file same_attrs_nfile)
  have cur: "etail y = n" if "c = Some y" for y
    using that step(3) by (auto dest: agfstout_tail)
  have gone: "x \<notin> set (edges g')" if "x \<notin> set (edges g1)" for x
    using that rest [of x] node_step_edges [OF step(5)] by auto
  consider "\<not> live g1 k" | "live g1 k" "\<not> live g2 k" | "live g2 k" by blast
  then show ?case
  proof cases
    case 1
    from edge_loop_removed_nodes [OF step(4) step.prems(1) fn cur step.prems(2)] 1
    obtain x where "x \<in> set (edges g)" "x \<notin> set (edges g1)" "intra g0 x" "ehead x = k"
      by auto
    with gone [of x] show ?thesis by blast
  next
    case 2
    with step(5) have r and "k = n" by (auto simp: agdelnode_live)
    from edge_loop_isreduced [OF step(4) step.prems(1) fn cur] \<open>r\<close>
    obtain x where "x \<in> set (edges g)" "x \<notin> set (edges g1)" "intra g0 x" "etail x = n"
      by auto
    with gone [of x] \<open>k = n\<close> show ?thesis by blast
  next
    case 3
    from step.IH [OF same_attrs_subgraph [OF sub(3) step.prems(1)] 3 step.prems(3)]
    obtain x where "x \<in> set (edges g2)" "x \<notin> set (edges g')" "intra g0 x"
      "etail x = k \<or> ehead x = k" by auto
    with subgraph_edges [OF sub(3)] show ?thesis by blast
  qed
qed

lemma subgraph_node_kept:
  assumes "subgraph g' g" and "x \<in> set (nodes g)" and "live g' (nseq x)"
  shows "x \<in> set (nodes g')"
proof -
  from assms(1) obtain P where P: "nodes g' = filter (\<lambda>x. P (nseq x)) (nodes g)"
    unfolding subgraph_def by blast
  with assms(3) have "P (nseq x)" by (auto simp: live_def node_ids_def)
  with P assms(2) show ?thesis by simp
qed

lemma agdelnode_incident:
  "agdelnode g m = Inr g2 \<Longrightarrow> e \<in> set (edges g2) \<Longrightarrow> etail e \<noteq> m \<and> ehead e \<noteq> m"
  by (auto dest!: agdelnode_Inr)

lemma edge_loop_gone:
  "edge_loop g f c nx r = Inr res \<Longrightarrow> live g k \<Longrightarrow> \<not> live (fst res) k \<Longrightarrow>
   e \<in> set (edges (fst res)) \<Longrightarrow> etail e \<noteq> k \<and> ehead e \<noteq> k"
proof (induction rule: edge_loop_induct_Inr)
  case (stop g nx r)
  then show ?case by simp
next
  case (skip g e' nx r nxtout file_m res)
  then show ?case by simp
next
  case (keep g e' nx r nxtout g1 d res)
  then show ?case by (simp add: agdelete_live)
next
  case (drop g e' nx r nxtout g1 nx' g2 res)
  show ?case
  proof (cases "k = aghead e'")
    case True
    from edge_loop_result_edges [OF drop(8) drop.prems(3)] have "e \<in> set (edges g2)" .
    with agdelnode_incident [OF drop(7)] True show ?thesis by simp
  next
    case False
    with drop.prems(1) have "live g2 k"
      by (simp add: agdelnode_live [OF drop(7)] agdelete_live [OF drop(4)])
    from drop.IH [OF this drop.prems(2,3)] show ?thesis .
  qed
qed

lemma node_loop_gone:
  "node_loop g c = Inr g' \<Longrightarrow> live g k \<Longrightarrow> \<not> live g' k \<Longrightarrow> e \<in> set (edges g') \<Longrightarrow>
   etail e \<noteq> k \<and> ehead e \<noteq> k"
proof (induction rule: node_loop_induct_Inr)
  case (stop g)
  then show ?case by simp
next
  case (step g n nx f c g1 nx1 r g2 g')
  note rest = subgraph_edges [OF node_loop_subgraph [OF step(6)] step.prems(3)]
  consider "\<not> live g1 k" | "live g1 k" "\<not> live g2 k" | "live g2 k" by blast
  then show ?case
  proof cases
    case 1
    from rest node_step_edges [OF step(5)] have "e \<in> set (edges (fst (g1, nx1, r)))" by simp
    from edge_loop_gone [OF step(4) step.prems(1) _ this] 1 show ?thesis by simp
  next
    case 2
    with step(5) have "agdelnode g1 n = Inr g2" and "k = n" by (auto simp: agdelnode_live)
    with agdelnode_incident [of g1 n g2 e] rest show ?thesis by simp
  next
    case 3
    from step.IH [OF 3 step.prems(2,3)] show ?thesis .
  qed
qed

text \<open>
  C8. A node without any edge in the input is still a node of the reduced graph. The
  reducer deletes only intra-file edges, and it deletes a node only when it has deleted
  an intra-file edge at that node and no edge of the node is left.
\<close>

theorem reducer_keeps_untouched_nodes:
  assumes "graph_remove_intra_edges g = Inr g'"
  shows "(\<forall>x \<in> set (nodes g). agdegree g (nseq x) = Inr 0 \<longrightarrow> x \<in> set (nodes g')) \<and>
    (\<forall>x \<in> set (nodes g). x \<notin> set (nodes g') \<longrightarrow>
       (\<exists>e \<in> set (edges g). e \<notin> set (edges g') \<and> intra g e \<and>
          (etail e = nseq x \<or> ehead e = nseq x)) \<and>
       (\<forall>e \<in> set (edges g'). etail e \<noteq> nseq x \<and> ehead e \<noteq> nseq x)) \<and>
    (\<forall>e \<in> set (edges g). e \<notin> set (edges g') \<longrightarrow> intra g e)"
proof -
  from assms have run: "node_loop g (agfstnode g) = Inr g'"
    by (simp add: graph_remove_intra_edges_def)
  note sub = node_loop_subgraph [OF run]
  have gone: "live g (nseq x) \<and> \<not> live g' (nseq x)"
    if "x \<in> set (nodes g)" "x \<notin> set (nodes g')" for x
  proof -
    from that(1) have "live g (nseq x)" by (auto simp: live_def node_ids_def)
    moreover from that subgraph_node_kept [OF sub] have "\<not> live g' (nseq x)" by blast
    ultimately show ?thesis ..
  qed
  have del: "\<exists>e \<in> set (edges g). e \<notin> set (edges g') \<and> intra g e \<and>
      (etail e = nseq x \<or> ehead e = nseq x)"
    if "x \<in> set (nodes g)" "x \<notin> set (nodes g')" for x
    using gone [OF that] node_loop_removed_nodes [OF run same_attrs_refl] by blast
  have none: "\<forall>e \<in> set (edges g'). etail e \<noteq> nseq x \<and> ehead e \<noteq> nseq x"
    if "x \<in> set (nodes g)" "x \<notin> set (nodes g')" for x
    using gone [OF that] node_loop_gone [OF run] by blast
  have "x \<in> set (nodes g')" if "x \<in> set (nodes g)" "agdegree g (nseq x) = Inr 0" for x
  proof (rule ccontr)
    assume "x \<notin> set (nodes g')"
    from del [OF that(1) this] obtain e where "e \<in> set (edges g)"
      "etail e = nseq x \<or> ehead e = nseq x" by blast
    with that(2) show False
      by (auto simp: agdegree_def filter_empty_conv split: if_splits)
  qed
  moreover have "intra g e" if "e \<in> set (edges g)" "e \<notin> set (edges g')" for e
    using that by (rule node_loop_removed_edges [OF run same_attrs_refl])
  ultimately show ?thesis using del none by blast
qed

theorem reducer_keeps_untouched_nodes_witness:
  "graph_remove_intra_edges ex_isolated =
     Inr \<lparr>nodes = [mk_node 3 ''C'' (quoted ''a.c'')], edges = []\<rparr> \<and>
   agdegree ex_isolated 3 = Inr 0 \<and>
   mk_node 3 ''C'' (quoted ''a.c'') \<in> set (nodes ex_isolated) \<and>
   mk_node 3 ''C'' (quoted ''a.c'') \<in> set [mk_node 3 ''C'' (quoted ''a.c'')] \<and>
   intra ex_isolated (mk_edge 1 1 2 [])"
proof -
  have run: "graph_remove_intra_edges ex_isolated =
     Inr \<lparr>nodes = [mk_node 3 ''C'' (quoted ''a.c'')], edges = []\<rparr>" by code_simp
  have d: "agdegree ex_isolated (nseq (mk_node 3 ''C'' (quoted ''a.c''))) = Inr 0" by code_simp
  have m: "mk_node 3 ''C'' (quoted ''a.c'') \<in> set (nodes ex_isolated)" by code_simp
  have e: "mk_edge 1 1 2 [] \<in> set (edges ex_isolated)"
    "mk_edge 1 1 2 [] \<notin> set (edges \<lparr>nodes = [mk_node 3 ''C'' (quoted ''a.c'')], edges = []\<rparr>)"
    by code_simp+
  have s: "nseq (mk_node 3 ''C'' (quoted ''a.c'')) = 3" by code_simp
  from reducer_keeps_untouched_nodes [OF run] d m e s run show ?thesis
    by (auto simp del: graph.simps)
qed

subsection \<open>A missing file attribute\<close>

lemma node_loop_assert:
  assumes "live g n" and "agget g n ''file'' = Inr None"
  shows "node_loop g (Some n) = Inl AssertFailed"
  using assms by (simp add: agnxtnode_def)

lemma edge_loop_assert:
  assumes "e \<in> set (edges g)" and "agget g (aghead e) ''file'' = Inr None"
  shows "edge_loop g f (Some e) nx r = Inl AssertFailed"
  using assms by (simp add: agnxtout_def)

lemma merge_loop_assert:
  assumes "live g n" and "agget g n ''file'' = Inr None"
  shows "merge_loop g st (Some n) = Inl (AssertFailed, ms_out st)"
  using assms by (simp add: agnxtnode_def)

lemma process_graph_reducer_abort:
  "graph_remove_intra_edges g = Inl err \<Longrightarrow> process_graph nodetype formattype g = Aborted err []"
  by (simp add: process_graph_def)

lemma reducer_missing_file:
  assumes "live g k" and "nfile g k = None"
  shows "\<exists>err. graph_remove_intra_edges g = Inl err"
proof (cases "graph_remove_intra_edges g")
  case (Inl err)
  then show ?thesis by blast
next
  case (Inr g')
  from reducer_files [OF this assms(1)] assms(2) show ?thesis by simp
qed

lemma reducer_no_file_at_all:
  assumes "nodes g \<noteq> []" and "\<forall>x \<in> set (nodes g). map_of (nattrs x) ''file'' = None"
  shows "graph_remove_intra_edges g = Inl AssertFailed"
proof -
  from assms(1) obtain n where n: "agfstnode g = Some n"
    by (cases "agfstnode g") (auto simp: agfstnode_def node_ids_def)
  then have l: "live g n" by (rule agfstnode_live)
  then obtain x where "find_node g n = Some x" by (cases "find_node g n") (auto simp: find_node_None)
  with assms(2) have "agget g n ''file'' = Inr None"
    by (auto simp: agget_def dest: find_node_Some)
  from node_loop_assert [OF l this] n show ?thesis by (simp add: graph_remove_intra_edges_def)
qed

text \<open>
  C10. A node without a \<open>file\<close> attribute aborts the run where it is visited: as the
  node of the outer loop of the reducer or of the merger, or as the head of an edge in the
  inner loop of the reducer. The pipeline then writes nothing for the graph: a graph with
  such a node never gets past the reducer, and when no node has the attribute the first
  node visited fails the assertion.
\<close>

theorem missing_file_aborts:
  "(live g n \<and> agget g n ''file'' = Inr None \<longrightarrow>
      node_loop g (Some n) = Inl AssertFailed \<and>
      merge_loop g st (Some n) = Inl (AssertFailed, ms_out st)) \<and>
   (e \<in> set (edges g) \<and> agget g (aghead e) ''file'' = Inr None \<longrightarrow>
      edge_loop g f (Some e) nx r = Inl AssertFailed) \<and>
   (live g k \<and> nfile g k = None \<longrightarrow>
      (\<exists>err. process_graph nodetype formattype g = Aborted err [])) \<and>
   (nodes g \<noteq> [] \<and> (\<forall>x \<in> set (nodes g). map_of (nattrs x) ''file'' = None) \<longrightarrow>
      process_graph nodetype formattype g = Aborted AssertFailed [])"
  using node_loop_assert [of g n] merge_loop_assert [of g n st] edge_loop_assert [of e g f nx r]
    reducer_missing_file [of g k] reducer_no_file_at_all [of g]
    process_graph_reducer_abort [of g _ nodetype formattype]
  by blast

theorem missing_file_aborts_witness:
  "node_loop ex_no_file (Some 2) = Inl AssertFailed \<and>
   merge_loop ex_no_file \<lparr>ms_h = agopen, ms_compartments = [], ms_out = []\<rparr> (Some 2) =
     Inl (AssertFailed, []) \<and>
   edge_loop ex_no_file (quoted ''a.c'') (Some (mk_edge 1 1 2 [])) None False = Inl AssertFailed \<and>
   process_graph NODE_TYPE_COMPARTMENT FORMAT_TYPE_D3_ARC ex_no_file = Aborted AssertFailed []"
proof -
  have a: "live ex_no_file 2" "agget ex_no_file 2 ''file'' = Inr None"
    "mk_edge 1 1 2 [] \<in> set (edges ex_no_file)"
    "agget ex_no_file (aghead (mk_edge 1 1 2 [])) ''file'' = Inr None"
    "nfile ex_no_file 2 = None" "nodes ex_no_file \<noteq> []"
    "\<forall>x \<in> set (nodes ex_no_file). map_of (nattrs x) ''file'' = None"
    by code_simp+
  from missing_file_aborts [of ex_no_file 2
      "\<lparr>ms_h = agopen, ms_compartments = [], ms_out = []\<rparr>" "mk_edge 1 1 2 []"
      "quoted ''a.c''" None False 2 NODE_TYPE_COMPARTMENT FORMAT_TYPE_D3_ARC] a
  show ?thesis by (simp del: node_loop.simps merge_loop.simps edge_loop.simps)
qed

section \<open>Invariants of the merger\<close>

lemma merge_loop_Some:
  "merge_loop g st (Some n) =
     (case agnxtnode g n of Inl err \<Rightarrow> Inl (err, ms_out st)
      | Inr nxtnode \<Rightarrow>
     (case agget g n ''file'' of Inl err \<Rightarrow> Inl (err, ms_out st)
      | Inr None \<Rightarrow> Inl (AssertFailed, ms_out st)
      | Inr (Some file_n) \<Rightarrow>
        if file_n = [] then merge_loop g st nxtnode
        else
     (case agfstout g n of Inl err \<Rightarrow> Inl (err, ms_out (compartment_for st file_n))
      | Inr e \<Rightarrow>
     (case merge_edge_loop g e of Inl err \<Rightarrow> Inl (err, ms_out (compartment_for st file_n))
      | Inr u \<Rightarrow> merge_loop g (compartment_for st file_n) nxtnode))))"
  by (simp add: compartment_for_def Let_def split: sum.splits option.splits)

lemma merge_loop_Some_cases:
  assumes "merge_loop g st (Some n) = Inr st'"
  obtains
    (skip) nx where "agnxtnode g n = Inr nx" "agget g n ''file'' = Inr (Some [])"
      "merge_loop g st nx = Inr st'"
  | (visit) nx file_n where "agnxtnode g n = Inr nx" "agget g n ''file'' = Inr (Some file_n)"
      "file_n \<noteq> []" "merge_loop g (compartment_for st file_n) nx = Inr st'"
  using assms unfolding merge_loop_Some
  by (auto split: sum.splits option.splits if_splits)

lemma merge_loop_induct_Inr [consumes 1, case_names stop skip visit]:
  assumes run: "merge_loop g st c = Inr st'"
    and A_stop: "\<And>st. P st None st"
    and A_skip: "\<And>st n nx st'.
      \<lbrakk>agnxtnode g n = Inr nx; agget g n ''file'' = Inr (Some []);
       merge_loop g st nx = Inr st'; P st nx st'\<rbrakk> \<Longrightarrow> P st (Some n) st'"
    and A_visit: "\<And>st n nx file_n st'.
      \<lbrakk>agnxtnode g n = Inr nx; agget g n ''file'' = Inr (Some file_n); file_n \<noteq> [];
       merge_loop g (compartment_for st file_n) nx = Inr st';
       P (compartment_for st file_n) nx st'\<rbrakk> \<Longrightarrow> P st (Some n) st'"
  shows "P st c st'"
proof -
  have "merge_loop g' st c = Inr st' \<Longrightarrow> g' = g \<Longrightarrow> P st c st'" for g'
  proof (induction g' st c arbitrary: st' rule: merge_loop.induct)
    case (1 g st)
    then show ?case using A_stop by auto
  next
    case (2 g'' st n)
    note eq = \<open>g'' = g\<close>
    note IH = "2.IH" [unfolded eq]
    note prem = "2.prems"(1) [unfolded eq]
    from prem show ?case
    proof (cases rule: merge_loop_Some_cases)
      case (skip nx)
      from IH(1) [OF skip(1,2) refl _ skip(3) refl]
      have "P st nx st'" by simp
      with skip show ?thesis by (intro A_skip) auto
    next
      case (visit nx file_n)
      from visit obtain e u where e: "agfstout g n = Inr e" "merge_edge_loop g e = Inr u"
        using prem unfolding merge_loop_Some
        by (auto split: sum.splits)
      have "P (compartment_for st file_n) nx st'"
        using IH(2) [OF visit(1,2) refl _ compartment_for_def e visit(4) refl] visit(3)
        by simp
      with visit show ?thesis by (intro A_visit) auto
    qed
  qed
  with run show ?thesis by simp
qed

lemma fold_max_ge: "a \<le> fold max xs (a::nat) \<and> (\<forall>x \<in> set xs. x \<le> fold max xs a)"
proof (induction xs arbitrary: a)
  case Nil
  show ?case by simp
next
  case (Cons y ys)
  from Cons [of "max y a"] show ?case by auto
qed

lemma fresh_seq_new: "x \<in> set (nodes h) \<Longrightarrow> nseq x \<noteq> fresh_seq h"
proof
  assume x: "x \<in> set (nodes h)" and eq: "nseq x = fresh_seq h"
  from x have "nseq x \<in> set (node_ids h)" by (simp add: node_ids_def)
  with eq have "fresh_seq h \<in> set (node_ids h)" by simp
  with fold_max_ge [of 0 "node_ids h"] have "fresh_seq h \<le> fold max (node_ids h) 0" by blast
  then show False by (simp add: fresh_seq_def)
qed

lemma agset_last:
  assumes "\<forall>x \<in> set xs. nseq x \<noteq> c" and "nodes h = xs @ [y]" and "nseq y = c"
  shows "nodes (agset h c a v) = xs @ [y\<lparr>nattrs := (a, v) # nattrs y\<rparr>]"
    and "edges (agset h c a v) = edges h"
proof -
  have "map (\<lambda>x. if nseq x = c then x\<lparr>nattrs := (a, v) # nattrs x\<rparr> else x) xs = xs"
    using assms(1) by (intro map_idI) simp
  with assms(2,3) show "nodes (agset h c a v) = xs @ [y\<lparr>nattrs := (a, v) # nattrs y\<rparr>]"
    by (simp add: agset_def)
  show "edges (agset h c a v) = edges h" by (simp add: agset_def)
qed

lemma compartment_for_new:
  assumes none: "map_of (ms_compartments st) f = None" and inv: "merged st S"
  shows "nodes (ms_h (compartment_for st f)) =
           nodes (ms_h st) @
           [\<lparr>nseq = fresh_seq (ms_h st), nname = f, nattrs = [(''file'', f), (''label'', f)]\<rparr>]"
    and "ms_compartments (compartment_for st f) = (f, fresh_seq (ms_h st)) # ms_compartments st"
    and "ms_out (compartment_for st f) = ms_out st @ [LabelFile f f]"
    and "edges (ms_h (compartment_for st f)) = edges (ms_h st)"
proof -
  from none have "f \<notin> fst ` set (ms_compartments st)" by (simp add: map_of_eq_None_iff)
  with inv have "f \<notin> nname ` set (nodes (ms_h st))" by (simp add: merged_def)
  then have "find (\<lambda>x. nname x = f) (nodes (ms_h st)) = None"
    by (auto simp: find_None_iff)
  then have ag: "agnode (ms_h st) f =
      ((ms_h st)\<lparr>nodes := nodes (ms_h st) @ [\<lparr>nseq = fresh_seq (ms_h st), nname = f, nattrs = []\<rparr>]\<rparr>,
       fresh_seq (ms_h st))"
    by (simp add: agnode_def)
  let ?c = "fresh_seq (ms_h st)"
  let ?h1 = "(ms_h st)\<lparr>nodes := nodes (ms_h st) @ [\<lparr>nseq = ?c, nname = f, nattrs = []\<rparr>]\<rparr>"
  let ?h2 = "agset ?h1 ?c ''label'' f"
  let ?h3 = "agset ?h2 ?c ''file'' f"
  have fresh: "\<forall>x \<in> set (nodes (ms_h st)). nseq x \<noteq> ?c" by (simp add: fresh_seq_new)
  have n2: "nodes ?h2 = nodes (ms_h st) @ [\<lparr>nseq = ?c, nname = f, nattrs = [(''label'', f)]\<rparr>]"
    and e2: "edges ?h2 = edges (ms_h st)"
    using agset_last [OF fresh, of ?h1 "\<lparr>nseq = ?c, nname = f, nattrs = []\<rparr>" "''label''" f]
    by simp_all
  have n3: "nodes ?h3 =
      nodes (ms_h st) @ [\<lparr>nseq = ?c, nname = f, nattrs = [(''file'', f), (''label'', f)]\<rparr>]"
    and e3: "edges ?h3 = edges (ms_h st)"
    using agset_last [OF fresh n2, of "''file''" f] e2 by simp_all
  have st: "compartment_for st f =
      \<lparr>ms_h = ?h3, ms_compartments = (f, ?c) # ms_compartments st,
       ms_out = ms_out st @ [LabelFile f f]\<rparr>"
    by (simp add: compartment_for_def none ag)
  show "nodes (ms_h (compartment_for st f)) =
           nodes (ms_h st) @
           [\<lparr>nseq = fresh_seq (ms_h st), nname = f, nattrs = [(''file'', f), (''label'', f)]\<rparr>]"
    unfolding st using n3 by simp
  show "ms_compartments (compartment_for st f) = (f, fresh_seq (ms_h st)) # ms_compartments st"
    unfolding st by simp
  show "ms_out (compartment_for st f) = ms_out st @ [LabelFile f f]"
    unfolding st by simp
  show "edges (ms_h (compartment_for st f)) = edges (ms_h st)"
    unfolding st using e3 by simp
qed

lemma compartment_for_merged:
  assumes inv: "merged st S"
  shows "merged (compartment_for st f) (insert f S)"
proof (cases "map_of (ms_compartments st) f")
  case None
  then have "f \<notin> fst ` set (ms_compartments st)" by (simp add: map_of_eq_None_iff)
  with inv have new: "f \<notin> nname ` set (nodes (ms_h st))" by (simp add: merged_def)
  from inv new show ?thesis
    unfolding merged_def compartment_for_new(1,2) [OF None inv]
    by (auto simp: compartment_ok_def)
next
  case (Some c)
  then have "(f, c) \<in> set (ms_compartments st)" by (rule map_of_SomeD)
  then have "f \<in> fst ` set (ms_compartments st)" by force
  with inv have "insert f S = S" by (auto simp: merged_def)
  with inv Some show ?thesis by (simp add: compartment_for_def)
qed

lemma at_or_after_step:
  assumes "live g k"
  shows "at_or_after (Some n) k \<longleftrightarrow> k = n \<or> at_or_after (nxt_of g n) k"
proof
  assume "at_or_after (Some n) k"
  then have nk: "n \<le> k" by (simp add: at_or_after_def)
  show "k = n \<or> at_or_after (nxt_of g n) k"
  proof (rule ccontr)
    assume c: "\<not> (k = n \<or> at_or_after (nxt_of g n) k)"
    then have "case nxt_of g n of None \<Rightarrow> True | Some j \<Rightarrow> k < j"
      by (auto simp: at_or_after_def split: option.splits)
    from nxt_of_bound [OF assms this] nk c show False by simp
  qed
next
  assume "k = n \<or> at_or_after (nxt_of g n) k"
  then show "at_or_after (Some n) k"
    by (auto simp: at_or_after_def split: option.splits dest!: nxt_of_greater)
qed

lemma files_from_step:
  assumes "agnxtnode g n = Inr nx" and "agget g n ''file'' = Inr (Some f)"
  shows "files_from g (Some n) = (if f = [] then {} else {f}) \<union> files_from g nx"
proof -
  from assms have nx: "nx = nxt_of g n" and n: "live g n" "nfile g n = Some f"
    by (auto dest: agnxtnode_Inr simp: agget_file)
  show ?thesis
    unfolding files_from_def nx using n
    by (auto simp: at_or_after_step)
qed

lemma merge_loop_merged:
  "merge_loop g st c = Inr st' \<Longrightarrow> merged st S \<Longrightarrow> merged st' (S \<union> files_from g c)"
proof (induction arbitrary: S rule: merge_loop_induct_Inr)
  case (stop st)
  then show ?case by (simp add: files_from_def at_or_after_def)
next
  case (skip st n nx st')
  from skip.IH [OF skip.prems] files_from_step [OF skip(1,2)] show ?case by simp
next
  case (visit st n nx file_n st')
  from visit.IH [OF compartment_for_merged [OF visit.prems]] files_from_step [OF visit(1,2)]
    visit(3)
  show ?case by simp
qed

lemma merge_loop_no_edges:
  "merge_loop g st c = Inr st' \<Longrightarrow> merged st S \<Longrightarrow> edges (ms_h st) = [] \<Longrightarrow>
   edges (ms_h st') = []"
proof (induction arbitrary: S rule: merge_loop_induct_Inr)
  case (stop st)
  then show ?case by simp
next
  case (skip st n nx st')
  then show ?case by simp
next
  case (visit st n nx file_n st')
  have "edges (ms_h (compartment_for st file_n)) = []"
  proof (cases "map_of (ms_compartments st) file_n")
    case None
    from compartment_for_new(4) [OF None visit.prems(1)] visit.prems(2) show ?thesis by simp
  next
    case (Some c)
    with visit.prems(2) show ?thesis by (simp add: compartment_for_def)
  qed
  from visit.IH [OF compartment_for_merged [OF visit.prems(1)] this] show ?case .
qed

lemma files_from_first:
  assumes "wf_graph g"
  shows "files_from g (agfstnode g) =
     {f. f \<noteq> [] \<and> (\<exists>x \<in> set (nodes g). map_of (nattrs x) ''file'' = Some f)}"
proof -
  have "\<exists>x \<in> set (nodes g). map_of (nattrs x) ''file'' = Some f"
    if "live g k" "nfile g k = Some f" for k f
    using that by (auto simp: nfile_def split: option.splits dest: find_node_Some)
  moreover have "\<exists>k. live g k \<and> at_or_after (agfstnode g) k \<and> nfile g k = Some f"
    if "x \<in> set (nodes g)" "map_of (nattrs x) ''file'' = Some f" for x f
  proof -
    from that(1) have l: "live g (nseq x)" by (auto simp: live_def node_ids_def)
    from wf_find_node [OF assms that(1)] that(2) have "nfile g (nseq x) = Some f"
      by (simp add: nfile_def)
    with l agfstnode_at_or_after [OF l] show ?thesis by blast
  qed
  ultimately show ?thesis unfolding files_from_def by blast
qed

lemma merger_compartments:
  assumes "wf_graph g" and "graph_merge_intra_nodes g = Inr (h, out)"
  shows "distinct (map nname (nodes h)) \<and>
    nname ` set (nodes h) =
      {f. f \<noteq> [] \<and> (\<exists>x \<in> set (nodes g). map_of (nattrs x) ''file'' = Some f)} \<and>
    (\<forall>c \<in> set (nodes h).
       map_of (nattrs c) ''label'' = Some (nname c) \<and>
       map_of (nattrs c) ''file'' = Some (nname c)) \<and>
    [] \<notin> nname ` set (nodes h) \<and>
    length (nodes h) \<le>
      card {f. f \<noteq> [] \<and> (\<exists>x \<in> set (nodes g). map_of (nattrs x) ''file'' = Some f)}"
proof -
  let ?st0 = "\<lparr>ms_h = agopen, ms_compartments = [], ms_out = []\<rparr>"
  let ?F = "{f. f \<noteq> [] \<and> (\<exists>x \<in> set (nodes g). map_of (nattrs x) ''file'' = Some f)}"
  from assms(2) obtain st where run: "merge_loop g ?st0 (agfstnode g) = Inr st"
    and h: "h = ms_h st"
    by (auto simp: graph_merge_intra_nodes_def split: sum.splits)
  have "merged ?st0 {}" by (simp add: merged_def agopen_def)
  from merge_loop_merged [OF run this] files_from_first [OF assms(1)]
  have inv: "merged st ?F" by simp
  then have d: "distinct (map nname (nodes h))" and s: "nname ` set (nodes h) = ?F"
    and ok: "\<forall>c \<in> set (nodes h). compartment_ok c"
    by (simp_all add: merged_def h)
  from d have "length (nodes h) = card (nname ` set (nodes h))"
    using distinct_card [of "map nname (nodes h)"] by simp
  with s have "length (nodes h) \<le> card ?F" by simp
  moreover from s have "[] \<notin> nname ` set (nodes h)" by simp
  ultimately show ?thesis using d s ok by (simp add: compartment_ok_def)
qed

section \<open>Graphs on which the loops complete\<close>

subsection \<open>The reducer\<close>

lemma subgraph_all_files: "subgraph g1 g \<Longrightarrow> all_files g \<Longrightarrow> all_files g1"
  unfolding subgraph_def all_files_def by auto

lemma subgraph_no_self_loop: "subgraph g1 g \<Longrightarrow> no_self_loop g \<Longrightarrow> no_self_loop g1"
  unfolding subgraph_def no_self_loop_def by auto

lemma edge_loop_completes:
  "wf_graph g \<Longrightarrow> all_files g \<Longrightarrow> (\<And>e. c = Some e \<Longrightarrow> e \<in> set (edges g)) \<Longrightarrow>
   \<exists>res. edge_loop g f c nx r = Inr res"
proof (induction g f c nx r rule: edge_loop.induct)
  case (1 g file_n nxtnode isreduced)
  show ?case by simp
next
  case (2 g file_n e nxtnode isreduced)
  from "2.prems"(3) have e: "e \<in> set (edges g)" by simp
  then obtain nxtout where nxt: "agnxtout g e = Inr nxtout" by (simp add: agnxtout_def)
  have cur: "x \<in> set (edges g) \<and> x \<noteq> e" if "nxtout = Some x" for x
    using that nxt by (auto dest!: agnxtout_Some)
  from e "2.prems"(1) have m: "live g (aghead e)" by (simp add: wf_graph_def aghead_def)
  with all_files_nfile [OF "2.prems"(2)] obtain file_m
    where fm: "agget g (aghead e) ''file'' = Inr (Some file_m)"
    by (auto simp: agget_file)
  show ?case
  proof (cases "length file_n = 0 \<or> length file_m = 0 \<or> file_n \<noteq> file_m")
    case True
    from "2.IH"(1) [OF nxt fm refl True "2.prems"(1,2)] cur
    obtain res where "edge_loop g file_n nxtout nxtnode isreduced = Inr res" by blast
    with nxt fm True have "edge_loop g file_n (Some e) nxtnode isreduced = Inr res" by simp
    then show ?thesis by blast
  next
    case False
    from e obtain g1 where del: "agdelete g e = Inr g1" by (simp add: agdelete_def)
    note sub1 = agdelete_subgraph [OF del]
    note wf1 = agdelete_wf [OF del "2.prems"(1)]
    note af1 = subgraph_all_files [OF sub1 "2.prems"(2)]
    from m have m1: "live g1 (aghead e)" by (simp add: agdelete_live [OF del])
    then obtain d where deg: "agdegree g1 (aghead e) = Inr d" by (simp add: agdegree_def)
    have cur1: "x \<in> set (edges g1)" if "nxtout = Some x" for x
      using cur [OF that] del by (auto dest!: agdelete_Inr)
    show ?thesis
    proof (cases "0 < d")
      case True
      from "2.IH"(2) [OF nxt fm refl False del deg True wf1 af1] cur1
      obtain res where "edge_loop g1 file_n nxtout nxtnode True = Inr res" by blast
      with nxt fm False del deg True
      have "edge_loop g file_n (Some e) nxtnode isreduced = Inr res" by simp
      then show ?thesis by blast
    next
      case d0: False
      from m1 have "\<exists>nx'. (if nxtnode = Some (aghead e) then agnxtnode g1 (aghead e)
          else Inr nxtnode) = Inr nx'"
        by (simp add: agnxtnode_def)
      then obtain nx' where nx': "(if nxtnode = Some (aghead e) then agnxtnode g1 (aghead e)
          else Inr nxtnode) = Inr nx'" ..
      from m1 obtain g2 where dn: "agdelnode g1 (aghead e) = Inr g2" by (simp add: agdelnode_def)
      note wf2 = agdelnode_wf [OF dn wf1]
      note af2 = subgraph_all_files [OF agdelnode_subgraph [OF dn] af1]
      from d0 deg have "agdegree g1 (aghead e) = Inr 0" by simp
      from agdelnode_isolated [OF this dn] cur1 have cur2: "\<And>x. nxtout = Some x \<Longrightarrow> x \<in> set (edges g2)"
        by simp
      from "2.IH"(3) [OF nxt fm refl False del deg d0 nx' dn wf2 af2] cur2
      obtain res where "edge_loop g2 file_n nxtout nx' True = Inr res" by blast
      with nxt fm False del deg d0 nx' dn
      have "edge_loop g file_n (Some e) nxtnode isreduced = Inr res" by simp
      then show ?thesis by blast
    qed
  qed
qed

lemma edge_loop_keeps_node:
  "edge_loop g f c nx r = Inr res \<Longrightarrow> live g k \<Longrightarrow> (\<And>e. c = Some e \<Longrightarrow> etail e = n) \<Longrightarrow>
   (\<And>e. e \<in> set (edges g) \<Longrightarrow> etail e = n \<Longrightarrow> ehead e \<noteq> k) \<Longrightarrow> live (fst res) k"
proof (induction rule: edge_loop_induct_Inr)
  case (stop g nx r)
  then show ?case by simp
next
  case (skip g e nx r nxtout file_m res)
  have tl: "etail e = n" using skip.prems(2) by simp
  show ?case
  proof (rule skip.IH [OF skip.prems(1) _ skip.prems(3)])
    fix y assume "nxtout = Some y"
    with skip(1) tl show "etail y = n" by (auto dest: agnxtout_Some)
  qed
next
  case (keep g e nx r nxtout g1 d res)
  have tl: "etail e = n" using keep.prems(2) by simp
  from keep.prems(1) have l1: "live g1 k" by (simp add: agdelete_live [OF keep(4)])
  show ?case
  proof (rule keep.IH [OF l1])
    fix y assume "nxtout = Some y"
    with keep(1) tl show "etail y = n" by (auto dest: agnxtout_Some)
  next
    fix y assume "y \<in> set (edges g1)" "etail y = n"
    with keep(4) keep.prems(3) [of y] show "ehead y \<noteq> k" by (auto dest!: agdelete_Inr)
  qed
next
  case (drop g e nx r nxtout g1 nx' g2 res)
  have tl: "etail e = n" using drop.prems(2) by simp
  from drop(4) have "e \<in> set (edges g)" by (auto dest!: agdelete_Inr)
  with drop.prems(3) [of e] tl have "k \<noteq> aghead e" by (auto simp: aghead_def)
  with drop.prems(1) have l2: "live g2 k"
    by (simp add: agdelnode_live [OF drop(7)] agdelete_live [OF drop(4)])
  show ?case
  proof (rule drop.IH [OF l2])
    fix y assume "nxtout = Some y"
    with drop(1) tl show "etail y = n" by (auto dest: agnxtout_Some)
  next
    fix y assume "y \<in> set (edges g2)" "etail y = n"
    with drop(4,7) drop.prems(3) [of y] show "ehead y \<noteq> k"
      by (auto dest!: agdelete_Inr agdelnode_Inr)
  qed
qed

lemma node_loop_completes:
  "wf_graph g \<Longrightarrow> all_files g \<Longrightarrow> no_self_loop g \<Longrightarrow> (\<And>n. c = Some n \<Longrightarrow> live g n) \<Longrightarrow>
   \<exists>g'. node_loop g c = Inr g'"
proof (induction g c rule: node_loop.induct)
  case (1 g)
  show ?case by simp
next
  case (2 g n)
  from "2.prems"(4) have n: "live g n" by simp
  then have nx: "agnxtnode g n = Inr (nxt_of g n)" by (simp add: agnxtnode_def)
  from all_files_nfile [OF "2.prems"(2) n] obtain f where f: "nfile g n = Some f" by blast
  with n have fn: "agget g n ''file'' = Inr (Some f)" by (simp add: agget_file)
  from n obtain c where c: "agfstout g n = Inr c" by (simp add: agfstout_def)
  have cur: "e \<in> set (edges g) \<and> etail e = n" if "c = Some e" for e
    using that c by (auto dest: agfstout_tail)
  from edge_loop_completes [OF "2.prems"(1,2), of c f "nxt_of g n" False] cur
  obtain g1 nx1 r where run: "edge_loop g f c (nxt_of g n) False = Inr (g1, nx1, r)"
    by (metis prod_cases3)
  note sub1 = edge_loop_subgraph [OF run, simplified]
  from edge_loop_wf [OF run "2.prems"(1)] have wf1: "wf_graph g1" by simp
  note af1 = subgraph_all_files [OF sub1 "2.prems"(2)]
  note ns1 = subgraph_no_self_loop [OF sub1 "2.prems"(3)]
  from edge_loop_nxt_of [OF run refl] have nx1: "nx1 = nxt_of g1 n" by simp
  have "live (fst (g1, nx1, r)) n"
  proof (rule edge_loop_keeps_node [OF run n])
    fix e assume "c = Some e"
    with cur show "etail e = n" by simp
  next
    fix e assume "e \<in> set (edges g)" "etail e = n"
    with "2.prems"(3) show "ehead e \<noteq> n" by (auto simp: no_self_loop_def)
  qed
  then have n1: "live g1 n" by simp
  then obtain d where deg: "agdegree g1 n = Inr d" by (simp add: agdegree_def)
  from n1 obtain g2 where dn: "agdelnode g1 n = Inr g2" by (simp add: agdelnode_def)
  show ?case
  proof (cases "r \<and> d = 0")
    case True
    have "nxt_of g1 n \<noteq> Some n" by (auto dest: nxt_of_greater)
    from nxt_of_delnode_other [OF dn this] nx1 have nx2: "nx1 = nxt_of g2 n" by simp
    have "\<exists>g'. node_loop g2 nx1 = Inr g'"
    proof (rule "2.IH"(1) [OF nx fn refl c run refl refl _ deg _ dn agdelnode_wf [OF dn wf1]
          subgraph_all_files [OF agdelnode_subgraph [OF dn] af1]
          subgraph_no_self_loop [OF agdelnode_subgraph [OF dn] ns1]])
      fix k assume "nx1 = Some k"
      with nx2 have "nxt_of g2 n = Some k" by simp
      then show "live g2 k" by (auto dest: nxt_of_greater)
    qed (use True in simp_all)
    with nx fn c run deg dn True show ?thesis by simp
  next
    case False
    have live1: "live g1 k" if "nx1 = Some k" for k
    proof -
      from that nx1 have "nxt_of g1 n = Some k" by simp
      then show ?thesis by (auto dest: nxt_of_greater)
    qed
    have "\<exists>g'. node_loop g1 nx1 = Inr g'"
    proof (cases r)
      case True
      with False have "d \<noteq> 0" by simp
      from "2.IH"(2) [OF nx fn refl c run refl refl True deg this wf1 af1 ns1] live1
      show ?thesis by blast
    next
      case False
      from "2.IH"(3) [OF nx fn refl c run refl refl False wf1 af1 ns1] live1
      show ?thesis by blast
    qed
    with nx fn c run deg False show ?thesis by (cases r) auto
  qed
qed

lemma reducer_completes:
  assumes "wf_graph g" and "all_files g" and "no_self_loop g"
  shows "\<exists>g'. graph_remove_intra_edges g = Inr g'"
  unfolding graph_remove_intra_edges_def
  using assms by (rule node_loop_completes) (rule agfstnode_live)

subsection \<open>The merger\<close>

lemma all_labels_agget:
  "all_labels g \<Longrightarrow> live g k \<Longrightarrow> \<exists>l. agget g k ''label'' = Inr (Some l)"
  by (auto simp: all_labels_def agget_def find_node_None split: option.splits
      dest!: find_node_Some)

lemma all_files_agget:
  "all_files g \<Longrightarrow> live g k \<Longrightarrow> \<exists>f. agget g k ''file'' = Inr (Some f)"
  using all_files_nfile [of g k] by (simp add: agget_file)

lemma merge_edge_loop_completes:
  "(\<And>e. c = Some e \<Longrightarrow> e \<in> set (edges g)) \<Longrightarrow> merge_edge_loop g c = Inr ()"
proof (induction g c rule: merge_edge_loop.induct)
  case (1 g)
  show ?case by simp
next
  case (2 g e)
  then have "e \<in> set (edges g)" by simp
  then obtain nxtout where nxt: "agnxtout g e = Inr nxtout" by (simp add: agnxtout_def)
  have "merge_edge_loop g nxtout = Inr ()"
    using nxt by (intro "2.IH") (auto dest: agnxtout_Some)
  with nxt show ?case by simp
qed

lemma merge_loop_completes:
  "all_files g \<Longrightarrow> (\<And>n. c = Some n \<Longrightarrow> live g n) \<Longrightarrow> \<exists>st'. merge_loop g st c = Inr st'"
proof (induction g st c rule: merge_loop.induct)
  case (1 g st)
  show ?case by simp
next
  case (2 g st n)
  from "2.prems"(2) have n: "live g n" by simp
  then have nx: "agnxtnode g n = Inr (nxt_of g n)" by (simp add: agnxtnode_def)
  from all_files_agget [OF "2.prems"(1) n] obtain f where f: "agget g n ''file'' = Inr (Some f)"
    by blast
  from n obtain c where c: "agfstout g n = Inr c" by (simp add: agfstout_def)
  then have me: "merge_edge_loop g c = Inr ()"
    by (intro merge_edge_loop_completes) (auto dest: agfstout_tail)
  have nxl: "\<And>k. nxt_of g n = Some k \<Longrightarrow> live g k" by (auto dest: nxt_of_greater)
  show ?case
  proof (cases "f = []")
    case True
    from "2.IH"(1) [OF nx f refl _ "2.prems"(1) nxl] True
    obtain st' where "merge_loop g st (nxt_of g n) = Inr st'" by auto
    with nx f True show ?thesis unfolding merge_loop_Some by simp
  next
    case False
    from "2.IH"(2) [OF nx f refl _ compartment_for_def c me "2.prems"(1) nxl] False
    obtain st' where "merge_loop g (compartment_for st f) (nxt_of g n) = Inr st'" by auto
    with nx f False c me show ?thesis unfolding merge_loop_Some by simp
  qed
qed

lemma merger_completes:
  assumes "all_files g"
  shows "\<exists>h out. graph_merge_intra_nodes g = Inr (h, out)"
proof -
  from merge_loop_completes [OF assms agfstnode_live]
  obtain st where "merge_loop g \<lparr>ms_h = agopen, ms_compartments = [], ms_out = []\<rparr>
      (agfstnode g) = Inr st" by blast
  then show ?thesis by (simp add: graph_merge_intra_nodes_def)
qed

section \<open>The merger on the graphs it is given\<close>

text \<open>
  C4. On a well-formed graph in which every node has a \<open>file\<close> attribute, as the
  reducer leaves it, the merger returns a graph that has exactly one compartment node for
  each non-empty \<open>file\<close> value of the nodes of the input, with that value as its name,
  its \<open>label\<close> and its \<open>file\<close>; the empty file has no compartment, and there are no
  more compartments than file values.
\<close>

theorem merge_one_compartment_per_file:
  assumes "wf_graph g" and "all_files g"
  shows "\<exists>h out. graph_merge_intra_nodes g = Inr (h, out) \<and>
    distinct (map nname (nodes h)) \<and>
    nname ` set (nodes h) =
      {f. f \<noteq> [] \<and> (\<exists>x \<in> set (nodes g). map_of (nattrs x) ''file'' = Some f)} \<and>
    (\<forall>c \<in> set (nodes h).
       map_of (nattrs c) ''label'' = Some (nname c) \<and>
       map_of (nattrs c) ''file'' = Some (nname c)) \<and>
    [] \<notin> nname ` set (nodes h) \<and>
    length (nodes h) \<le>
      card {f. f \<noteq> [] \<and> (\<exists>x \<in> set (nodes g). map_of (nattrs x) ''file'' = Some f)}"
proof -
  from merger_completes [OF assms(2)] obtain h out
    where run: "graph_merge_intra_nodes g = Inr (h, out)" by blast
  from merger_compartments [OF assms(1) run] run show ?thesis by blast
qed

theorem merge_one_compartment_per_file_witness:
  "wf_graph ex_files \<and> all_files ex_files \<and>
   graph_merge_intra_nodes ex_files =
     Inr (ex_files_merged,
          [LabelFile (quoted ''a.c'') (quoted ''a.c''), LabelFile (quoted ''b.c'') (quoted ''b.c'')]) \<and>
   map nname (nodes ex_files_merged) = [quoted ''a.c'', quoted ''b.c''] \<and>
   {f. f \<noteq> [] \<and> (\<exists>x \<in> set (nodes ex_files). map_of (nattrs x) ''file'' = Some f)} =
     {quoted ''a.c'', quoted ''b.c''}"
proof -
  have wf: "wf_graph ex_files" by code_simp
  have af: "all_files ex_files" by code_simp
  have run: "graph_merge_intra_nodes ex_files =
     Inr (ex_files_merged,
          [LabelFile (quoted ''a.c'') (quoted ''a.c''), LabelFile (quoted ''b.c'') (quoted ''b.c'')])"
    by code_simp
  have names: "map nname (nodes ex_files_merged) = [quoted ''a.c'', quoted ''b.c'']"
    by code_simp
  from merge_one_compartment_per_file [OF wf af] run
  have "nname ` set (nodes ex_files_merged) =
      {f. f \<noteq> [] \<and> (\<exists>x \<in> set (nodes ex_files). map_of (nattrs x) ''file'' = Some f)}"
    by auto
  with names
  have "{f. f \<noteq> [] \<and> (\<exists>x \<in> set (nodes ex_files). map_of (nattrs x) ''file'' = Some f)} =
     {quoted ''a.c'', quoted ''b.c''}"
    by (metis list.set_map list.simps(15) empty_set)
  with wf af run names show ?thesis by simp
qed

section \<open>The emitter on the graphs it is given\<close>

subsection \<open>The loops of the emitter visit the nodes and the edges in order\<close>

lemma strlen_int_short: "length s < 2147483648 \<Longrightarrow> strlen_int s = int (length s)"
  by (simp add: strlen_int_def)

lemma id_field_short: "length l < 2147483648 \<Longrightarrow> id_field l = strip_outer 1 l"
  by (simp add: id_field_def strlen_int_short printf_prec_def strip_outer_def nat_diff_distrib'
      numeral_2_eq_2)

lemma group_field_short:
  "length f < 2147483648 \<Longrightarrow> group_field f = (if f = [] then ''NONE'' else strip_outer 3 f)"
  by (simp add: group_field_def strlen_int_short printf_prec_def strip_outer_def nat_diff_distrib')

lemma print_nodes_step:
  assumes "agnxtnode g n = Inr nxtnode" and "agget g n ''label'' = Inr (Some labeln)"
    and "agget g n ''file'' = Inr (Some filen)"
  shows "print_nodes g out (Some n) =
      print_nodes g
        (out @ [NodeObj (id_field labeln) (group_field filen)] @
         (if nxtnode \<noteq> None then [Lit '',''] else []) @ [Lit nl])
        nxtnode"
  unfolding print_nodes.simps(2) [of g out n] assms sum.case option.case Let_def
    id_field_def group_field_def
  by (cases nxtnode) simp_all

lemma print_out_edges_step:
  assumes "agnxtout g e = Inr nxtout" and "agget g (aghead e) ''label'' = Inr (Some labelm)"
  shows "print_out_edges g out labeln nxtnode (Some e) =
      print_out_edges g
        (out @ [LinkObj (id_field labeln) (id_field labelm) (weight e)] @
         (if nxtout \<noteq> None \<or> nxtnode \<noteq> None then [Lit '',''] else []) @ [Lit nl])
        labeln nxtnode nxtout"
  unfolding print_out_edges.simps(2) [of g out labeln nxtnode e] assms sum.case option.case
    Let_def id_field_def weight_def
  by (cases nxtnode; cases nxtout; cases "agget_edge e ''value''") simp_all

lemma sorted_split:
  assumes "sorted (map f ys)" and "ys = as @ x # bs"
  shows "\<And>a. a \<in> set as \<Longrightarrow> f a \<le> f x" and "\<And>b. b \<in> set bs \<Longrightarrow> f x \<le> f b"
  using assms by (auto simp: sorted_append)

lemma sorted_split_strict:
  assumes "sorted (map f ys)" and "distinct (map f ys)" and "ys = as @ x # bs"
    and "b \<in> set bs"
  shows "f x < f b"
proof -
  from assms have "f x \<le> f b" by (auto simp: sorted_append)
  moreover from assms have "f x \<noteq> f b" by auto
  ultimately show ?thesis by simp
qed

lemma node_order_props:
  assumes "distinct (node_ids g)"
  shows "sorted (map nseq (node_order g))" and "set (node_order g) = set (nodes g)"
    and "distinct (map nseq (node_order g))"
  using assms by (simp_all add: node_order_def node_ids_def distinct_map)

lemma out_edges_props:
  assumes "distinct (map eseq (edges g))"
  shows "sorted (map eseq (out_edges g n))"
    and "set (out_edges g n) = {e \<in> set (edges g). etail e = n}"
    and "distinct (map eseq (out_edges g n))"
  using assms by (auto simp: out_edges_def distinct_map inj_on_def)

lemma least_edge_eqI:
  assumes e: "e \<in> set xs" and le: "\<And>x. x \<in> set xs \<Longrightarrow> eseq e \<le> eseq x"
    and inj: "inj_on eseq (set xs)"
  shows "least_edge xs = Some e"
proof -
  from e obtain j where j: "least_edge xs = Some j" by (cases "least_edge xs") auto
  from least_edge_mem [OF j] have jm: "j \<in> set xs" .
  from le [OF jm] least_edge_le [OF j e] have "eseq j = eseq e" by simp
  with inj jm e have "j = e" by (auto dest: inj_onD)
  with j show ?thesis by simp
qed

lemma agfstnode_order: "agfstnode g = node_cursor (node_order g)"
proof (cases "node_order g")
  case Nil
  from arg_cong [OF this, of set] have "nodes g = []" by (simp add: node_order_def)
  with Nil show ?thesis by (simp add: agfstnode_def node_ids_def node_cursor_def)
next
  case (Cons y ys)
  have s: "sorted (map nseq (node_order g))" and m: "set (node_order g) = set (nodes g)"
    by (simp_all add: node_order_def)
  have "least (node_ids g) = Some (nseq y)"
  proof (rule least_eqI)
    from m Cons show "nseq y \<in> set (node_ids g)" by (auto simp: node_ids_def)
  next
    fix k assume "k \<in> set (node_ids g)"
    with m obtain z where "z \<in> set (node_order g)" "k = nseq z" by (auto simp: node_ids_def)
    with s Cons show "nseq y \<le> k" by auto
  qed
  with Cons show ?thesis by (simp add: agfstnode_def node_cursor_def)
qed

lemma nxt_of_order:
  assumes d: "distinct (node_ids g)" and o: "node_order g = as @ x # bs"
  shows "nxt_of g (nseq x) = node_cursor bs"
proof -
  note p = node_order_props [OF d]
  have later: "k \<in> set (filter (\<lambda>m. nseq x < m) (node_ids g)) \<longleftrightarrow> k \<in> nseq ` set bs" for k
  proof
    assume "k \<in> set (filter (\<lambda>m. nseq x < m) (node_ids g))"
    with p(2) obtain z where z: "z \<in> set (node_order g)" "k = nseq z" "nseq x < nseq z"
      by (auto simp: node_ids_def)
    from z(1) o have "z \<in> set as \<or> z = x \<or> z \<in> set bs" by auto
    with sorted_split(1) [OF p(1) o, of z] z(3) have "z \<in> set bs" by auto
    with z(2) show "k \<in> nseq ` set bs" by simp
  next
    assume "k \<in> nseq ` set bs"
    then obtain z where z: "z \<in> set bs" "k = nseq z" by auto
    from sorted_split_strict [OF p(1,3) o z(1)] z o p(2)
    show "k \<in> set (filter (\<lambda>m. nseq x < m) (node_ids g))"
      by (auto simp: node_ids_def)
  qed
  show ?thesis
  proof (cases bs)
    case Nil
    with later have "filter (\<lambda>m. nseq x < m) (node_ids g) = []"
      by (metis empty_iff empty_set image_empty set_empty2 subsetI subset_empty)
    with Nil show ?thesis by (simp add: nxt_of_def node_cursor_def)
  next
    case (Cons b bs')
    have "least (filter (\<lambda>m. nseq x < m) (node_ids g)) = Some (nseq b)"
    proof (rule least_eqI)
      from later [of "nseq b"] Cons show "nseq b \<in> set (filter (\<lambda>m. nseq x < m) (node_ids g))"
        by simp
    next
      fix k assume "k \<in> set (filter (\<lambda>m. nseq x < m) (node_ids g))"
      with later obtain z where z: "z \<in> set bs" "k = nseq z" by auto
      from p(1) o Cons z show "nseq b \<le> k" by (auto simp: sorted_append)
    qed
    with Cons show ?thesis by (simp add: nxt_of_def node_cursor_def)
  qed
qed

lemma agfstout_order:
  assumes d: "distinct (map eseq (edges g))" and n: "live g n"
  shows "agfstout g n = Inr (edge_cursor (out_edges g n))"
proof (cases "out_edges g n")
  case Nil
  from arg_cong [OF this, of set] have "filter (\<lambda>e. etail e = n) (edges g) = []"
    unfolding out_edges_def set_sort by simp
  with Nil n show ?thesis by (simp add: agfstout_def edge_cursor_def)
next
  case (Cons e es)
  note p = out_edges_props [OF d, of n]
  have "least_edge (filter (\<lambda>e. etail e = n) (edges g)) = Some e"
  proof (rule least_edge_eqI)
    from p(2) Cons show "e \<in> set (filter (\<lambda>e. etail e = n) (edges g))" by auto
  next
    fix x assume "x \<in> set (filter (\<lambda>e. etail e = n) (edges g))"
    with p(2) have "x \<in> set (out_edges g n)" by auto
    with p(1) Cons show "eseq e \<le> eseq x" by auto
  next
    from d show "inj_on eseq (set (filter (\<lambda>e. etail e = n) (edges g)))"
      by (auto simp: distinct_map inj_on_def)
  qed
  with Cons n show ?thesis by (simp add: agfstout_def edge_cursor_def)
qed

lemma agnxtout_order:
  assumes d: "distinct (map eseq (edges g))" and o: "out_edges g n = as @ e # bs"
  shows "agnxtout g e = Inr (edge_cursor bs)"
proof -
  note p = out_edges_props [OF d, of n]
  from p(2) o have e: "e \<in> set (edges g)" "etail e = n" by auto
  let ?later = "filter (\<lambda>e'. etail e' = etail e \<and> eseq e < eseq e') (edges g)"
  have later: "set ?later = set bs"
  proof (intro set_eqI iffI)
    fix z assume "z \<in> set ?later"
    with e p(2) have z: "z \<in> set (out_edges g n)" "eseq e < eseq z" by auto
    from z(1) o have "z \<in> set as \<or> z = e \<or> z \<in> set bs" by auto
    with sorted_split(1) [OF p(1) o, of z] z(2) show "z \<in> set bs" by auto
  next
    fix z assume z: "z \<in> set bs"
    from sorted_split_strict [OF p(1,3) o z] z o p(2) e
    show "z \<in> set ?later" by auto
  qed
  have "least_edge ?later = edge_cursor bs"
  proof (cases bs)
    case Nil
    with later have "?later = []" by simp
    with Nil show ?thesis by (simp add: edge_cursor_def)
  next
    case (Cons b bs')
    have "least_edge ?later = Some b"
    proof (rule least_edge_eqI)
      from later Cons show "b \<in> set ?later" by simp
    next
      fix x assume "x \<in> set ?later"
      with later have "x \<in> set bs" by simp
      with p(1) o Cons show "eseq b \<le> eseq x" by (auto simp: sorted_append)
    next
      from d show "inj_on eseq (set ?later)" by (auto simp: distinct_map inj_on_def)
    qed
    with Cons show ?thesis by (simp add: edge_cursor_def)
  qed
  with e show ?thesis by (simp add: agnxtout_def)
qed

lemma agget_attr:
  assumes "wf_graph g" and "x \<in> set (nodes g)" and "map_of (nattrs x) a \<noteq> None"
  shows "agget g (nseq x) a = Inr (Some (attr x a))"
  using assms wf_find_node [OF assms(1,2)] by (auto simp: agget_def attr_def)

lemma node_cursor_simps [simp]:
  "node_cursor [] = None" "node_cursor (x # xs) = Some (nseq x)"
  "node_cursor xs = None \<longleftrightarrow> xs = []" "(\<exists>y. node_cursor xs = Some y) \<longleftrightarrow> xs \<noteq> []"
  by (simp_all add: node_cursor_def split: list.splits)

lemma edge_cursor_simps [simp]:
  "edge_cursor [] = None" "edge_cursor (x # xs) = Some x"
  "edge_cursor xs = None \<longleftrightarrow> xs = []" "(\<exists>y. edge_cursor xs = Some y) \<longleftrightarrow> xs \<noteq> []"
  by (simp_all add: edge_cursor_def split: list.splits)

lemma print_nodes_refine:
  assumes wf: "wf_graph g" and al: "all_labels g" and af: "all_files g"
  shows "node_order g = as @ rest \<Longrightarrow>
    print_nodes g out (node_cursor rest) = Inr (out @ node_tokens (map node_entry rest))"
proof (induction rest arbitrary: as out)
  case Nil
  show ?case by simp
next
  case (Cons x r)
  from wf have d: "distinct (node_ids g)" by (simp add: wf_graph_def)
  from node_order_props(2) [OF d] Cons.prems have x: "x \<in> set (nodes g)" by auto
  then have "live g (nseq x)" by (simp add: live_def node_ids_def)
  with nxt_of_order [OF d Cons.prems] have nx: "agnxtnode g (nseq x) = Inr (node_cursor r)"
    by (simp add: agnxtnode_def)
  from x al have l: "agget g (nseq x) ''label'' = Inr (Some (attr x ''label''))"
    by (intro agget_attr [OF wf]) (auto simp: all_labels_def)
  from x af have f: "agget g (nseq x) ''file'' = Inr (Some (attr x ''file''))"
    by (intro agget_attr [OF wf]) (auto simp: all_files_def)
  from Cons.prems have "node_order g = (as @ [x]) @ r" by simp
  from Cons.IH [OF this] show ?case
    unfolding node_cursor_simps(2) print_nodes_step [OF nx l f]
    by (simp add: node_entry_def)
qed

lemma print_out_edges_refine:
  assumes wf: "wf_graph g" and al: "all_labels g"
  shows "out_edges g n = as @ rest \<Longrightarrow>
    print_out_edges g out labeln nxtnode (edge_cursor rest) =
      Inr (out @ link_tokens (nxtnode \<noteq> None)
             (map (\<lambda>e. (id_field labeln, id_field (head_label g e), weight e)) rest))"
proof (induction rest arbitrary: as out)
  case Nil
  show ?case by simp
next
  case (Cons e r)
  from wf have d: "distinct (map eseq (edges g))" by (simp add: wf_graph_def)
  from out_edges_props(2) [OF d, of n] Cons.prems have e: "e \<in> set (edges g)" by auto
  note nxt = agnxtout_order [OF d Cons.prems]
  from e wf have "live g (ehead e)" by (simp add: wf_graph_def)
  then obtain y where y: "find_node g (ehead e) = Some y"
    by (cases "find_node g (ehead e)") (auto simp: find_node_None)
  then have "y \<in> set (nodes g)" by (auto dest: find_node_Some)
  with al obtain lm where "map_of (nattrs y) ''label'' = Some lm" by (auto simp: all_labels_def)
  with y have lm: "agget g (aghead e) ''label'' = Inr (Some (head_label g e))"
    by (simp add: agget_def aghead_def head_label_def attr_def)
  from Cons.prems have "out_edges g n = (as @ [e]) @ r" by simp
  from Cons.IH [OF this] show ?case
    unfolding edge_cursor_simps(2) print_out_edges_step [OF nxt lm]
    by simp
qed

lemma print_links_refine:
  assumes wf: "wf_graph g" and al: "all_labels g"
  shows "node_order g = as @ rest \<Longrightarrow>
    print_links g out (node_cursor rest) =
      Inr (out @ group_tokens (map (\<lambda>x. map (link_entry g x) (out_edges g (nseq x))) rest))"
proof (induction rest arbitrary: as out)
  case Nil
  show ?case by simp
next
  case (Cons x r)
  from wf have d: "distinct (node_ids g)" and de: "distinct (map eseq (edges g))"
    by (simp_all add: wf_graph_def)
  from node_order_props(2) [OF d] Cons.prems have x: "x \<in> set (nodes g)" by auto
  then have lv: "live g (nseq x)" by (simp add: live_def node_ids_def)
  with nxt_of_order [OF d Cons.prems] have nx: "agnxtnode g (nseq x) = Inr (node_cursor r)"
    by (simp add: agnxtnode_def)
  from x al have l: "agget g (nseq x) ''label'' = Inr (Some (attr x ''label''))"
    by (intro agget_attr [OF wf]) (auto simp: all_labels_def)
  note fst = agfstout_order [OF de lv]
  from print_out_edges_refine [OF wf al, of "nseq x" "[]" "out_edges g (nseq x)"]
  have run: "print_out_edges g out (attr x ''label'') (node_cursor r)
      (edge_cursor (out_edges g (nseq x))) =
      Inr (out @ link_tokens (r \<noteq> []) (map (link_entry g x) (out_edges g (nseq x))))"
    by (simp add: link_entry_def [abs_def])
  from Cons.prems have "node_order g = (as @ [x]) @ r" by simp
  from Cons.IH [OF this] show ?case
    unfolding node_cursor_simps(2) print_links.simps(2) [of g out "nseq x"] nx l fst run
      sum.case option.case
    by simp
qed

lemma emitter_tokens:
  assumes "wf_graph g" and "all_labels g" and "all_files g"
  shows "graph_print_d3_arc g = Inr (d3_arc_tokens (node_entries g) (link_groups g))"
  using print_nodes_refine [OF assms, of "[]" "node_order g"]
    print_links_refine [OF assms(1,2), of "[]" "node_order g"]
  by (simp add: graph_print_d3_arc_def agfstnode_order d3_arc_tokens_def node_entries_def
      link_groups_def)

subsection \<open>The text of the document\<close>

lemma stdout_text_append [simp]: "stdout_text (a @ b) = stdout_text a @ stdout_text b"
  by (simp add: stdout_text_def)

lemma stdout_text_Cons: "stdout_text (t # ts) = render t @ stdout_text ts"
  by (simp add: stdout_text_def)

lemma stdout_text_Nil [simp]: "stdout_text [] = []"
  by (simp add: stdout_text_def)

lemma node_tokens_text: "stdout_text (node_tokens nes) = node_text nes"
  by (induction nes rule: node_tokens.induct)
    (simp_all add: stdout_text_Cons node_object_text_def)

lemma link_tokens_text: "stdout_text (link_tokens flw es) = link_text flw es"
  by (induction flw es rule: link_tokens.induct)
    (simp_all add: stdout_text_Cons link_object_text_def)

lemma group_tokens_text: "stdout_text (group_tokens gs) = group_text gs"
  by (induction gs) (simp_all add: link_tokens_text)

lemma d3_arc_tokens_text: "stdout_text (d3_arc_tokens nes lgs) = d3_arc_text nes lgs"
  by (simp add: d3_arc_tokens_def d3_arc_text_def stdout_text_Cons node_tokens_text
      group_tokens_text d3_open_def d3_mid_def d3_close_def)

lemma emitter_text:
  assumes "wf_graph g" and "all_labels g" and "all_files g"
  shows "\<exists>out. graph_print_d3_arc g = Inr out \<and>
    stdout_text out = d3_arc_text (node_entries g) (link_groups g)"
  using emitter_tokens [OF assms] by (simp add: d3_arc_tokens_text)

lemma node_entries_short:
  assumes "wf_graph g" and "short_attrs g"
  shows "node_entries g = map stripped_node (node_order g)"
proof -
  from assms(1) have "set (node_order g) = set (nodes g)" by (simp add: node_order_def)
  with assms(2) show ?thesis
    by (auto simp: node_entries_def node_entry_def stripped_node_def short_attrs_def
        id_field_short group_field_short)
qed

lemma head_label_short:
  assumes "short_attrs g"
  shows "length (head_label g e) < 2147483648"
  using assms
  by (auto simp: head_label_def short_attrs_def split: option.splits dest!: find_node_Some)

lemma link_groups_short:
  assumes "wf_graph g" and "short_attrs g"
  shows "link_groups g =
    map (\<lambda>x. map (stripped_link g x) (out_edges g (nseq x))) (node_order g)"
proof -
  from assms(1) have "set (node_order g) = set (nodes g)" by (simp add: node_order_def)
  with assms(2) head_label_short [OF assms(2)] show ?thesis
    by (auto simp: link_groups_def link_entry_def stripped_link_def short_attrs_def
        id_field_short)
qed

lemma emitter_text_short:
  assumes "wf_graph g" and "all_labels g" and "all_files g" and "short_attrs g"
  shows "\<exists>out. graph_print_d3_arc g = Inr out \<and>
    stdout_text out =
      d3_arc_text (map stripped_node (node_order g))
        (map (\<lambda>x. map (stripped_link g x) (out_edges g (nseq x))) (node_order g))"
  using emitter_text [OF assms(1-3)] node_entries_short [OF assms(1,4)]
    link_groups_short [OF assms(1,4)]
  by simp

text \<open>A label of \<open>2^31\<close> bytes has a negative length in an \<open>int\<close>: the \<open>id\<close>
  printed for it is empty.\<close>

lemma long_label_wraps:
  assumes "length l = 2147483648"
  shows "id_field l = []"
  using assms by (simp add: id_field_def strlen_int_def printf_prec_def)

subsection \<open>The lines of the two arrays\<close>

lemma take_drop_prefix:
  "(take (length a) seg = a \<and> P (drop (length a) seg)) \<longleftrightarrow> (\<exists>rest. seg = a @ rest \<and> P rest)"
proof
  assume l: "take (length a) seg = a \<and> P (drop (length a) seg)"
  then have "seg = a @ drop (length a) seg" by (metis append_take_drop_id)
  with l show "\<exists>rest. seg = a @ rest \<and> P rest" by blast
next
  assume "\<exists>rest. seg = a @ rest \<and> P rest"
  then show "take (length a) seg = a \<and> P (drop (length a) seg)" by auto
qed

lemma object_lines_Cons:
  "object_lines (ob # obs) seg \<longleftrightarrow>
   (\<exists>sep rest. (sep = [] \<or> sep = '','') \<and> seg = ob @ sep @ nl @ rest \<and> object_lines obs rest)"
proof -
  have "object_lines (ob # obs) seg \<longleftrightarrow>
      (\<exists>rest. seg = (ob @ nl) @ rest \<and> object_lines obs rest) \<or>
      (\<exists>rest. seg = (ob @ '','' @ nl) @ rest \<and> object_lines obs rest)"
    unfolding object_lines.simps Let_def
      take_drop_prefix [of "ob @ nl" seg "object_lines obs"]
      take_drop_prefix [of "ob @ '','' @ nl" seg "object_lines obs"] ..
  also have "\<dots> \<longleftrightarrow>
      (\<exists>sep rest. (sep = [] \<or> sep = '','') \<and> seg = ob @ sep @ nl @ rest \<and> object_lines obs rest)"
    by (simp only: append_assoc) (metis append_Nil)
  finally show ?thesis .
qed

lemma object_lines_append:
  "object_lines a s \<Longrightarrow> object_lines b t \<Longrightarrow> object_lines (a @ b) (s @ t)"
proof (induction a arbitrary: s)
  case Nil
  then show ?case by simp
next
  case (Cons ob obs)
  from Cons.prems(1) obtain sep rest where s: "sep = [] \<or> sep = '',''"
    "s = ob @ sep @ nl @ rest" "object_lines obs rest"
    unfolding object_lines_Cons by blast
  from Cons.IH [OF s(3) Cons.prems(2)] have "object_lines (obs @ b) (rest @ t)" .
  with s(1,2) have "\<exists>sep' rest'. (sep' = [] \<or> sep' = '','') \<and>
      s @ t = ob @ sep' @ nl @ rest' \<and> object_lines (obs @ b) rest'"
    by (intro exI [of _ sep] exI [of _ "rest @ t"]) simp
  then show ?case unfolding append_Cons object_lines_Cons .
qed

lemma node_text_lines: "object_lines (map node_object_text nes) (node_text nes)"
proof (induction nes)
  case Nil
  show ?case by simp
next
  case (Cons ne es)
  have "\<exists>sep rest. (sep = [] \<or> sep = '','') \<and>
      node_text (ne # es) = node_object_text ne @ sep @ nl @ rest \<and>
      object_lines (map node_object_text es) rest"
    using Cons
    by (intro exI [of _ "if es \<noteq> [] then '','' else []"] exI [of _ "node_text es"]) simp
  then show ?case unfolding list.map object_lines_Cons .
qed

lemma link_text_lines: "object_lines (map link_object_text es) (link_text flw es)"
proof (induction es)
  case Nil
  show ?case by simp
next
  case (Cons le es)
  have "\<exists>sep rest. (sep = [] \<or> sep = '','') \<and>
      link_text flw (le # es) = link_object_text le @ sep @ nl @ rest \<and>
      object_lines (map link_object_text es) rest"
    using Cons
    by (intro exI [of _ "if es \<noteq> [] \<or> flw then '','' else []"] exI [of _ "link_text flw es"])
      simp
  then show ?case unfolding list.map object_lines_Cons .
qed

lemma group_text_lines: "object_lines (map link_object_text (concat gs)) (group_text gs)"
proof (induction gs)
  case Nil
  show ?case by simp
next
  case (Cons es gs)
  from object_lines_append [OF link_text_lines Cons, of es "gs \<noteq> []"]
  show ?case by simp
qed

subsection \<open>The objects of the two arrays\<close>

lemma length_filter_split:
  "(\<And>x. x \<in> set xs \<Longrightarrow> P x \<longleftrightarrow> Q x \<or> R x) \<Longrightarrow> (\<And>x. x \<in> set xs \<Longrightarrow> \<not> (Q x \<and> R x)) \<Longrightarrow>
   length (filter P xs) = length (filter Q xs) + length (filter R xs)"
  by (induction xs) auto

lemma sum_out_degrees:
  "distinct (map nseq ys) \<Longrightarrow>
   length (concat (map (\<lambda>x. map (f x) (sort_key eseq (filter (\<lambda>e. etail e = nseq x) es))) ys)) =
   length (filter (\<lambda>e. etail e \<in> nseq ` set ys) es)"
proof (induction ys)
  case Nil
  show ?case by simp
next
  case (Cons y ys)
  have "length (filter (\<lambda>e. etail e \<in> nseq ` set (y # ys)) es) =
      length (filter (\<lambda>e. etail e = nseq y) es) +
      length (filter (\<lambda>e. etail e \<in> nseq ` set ys) es)"
    using Cons.prems by (intro length_filter_split) auto
  with Cons show ?case by simp
qed

lemma link_groups_length:
  assumes "wf_graph g"
  shows "length (concat (link_groups g)) = length (edges g)"
proof -
  from assms have d: "distinct (node_ids g)" by (simp add: wf_graph_def)
  note p = node_order_props [OF d]
  from assms p(2) have "\<forall>e \<in> set (edges g). etail e \<in> nseq ` set (node_order g)"
    by (auto simp: wf_graph_def live_def node_ids_def)
  then have "filter (\<lambda>e. etail e \<in> nseq ` set (node_order g)) (edges g) = edges g"
    by (simp add: filter_id_conv)
  with sum_out_degrees [OF p(3), of "link_entry g" "edges g"] show ?thesis
    by (simp add: link_groups_def out_edges_def)
qed

lemma node_entries_length: "length (node_entries g) = length (nodes g)"
  by (simp add: node_entries_def node_order_def)

lemma link_ends_are_ids:
  assumes wf: "wf_graph g" and le: "le \<in> set (concat (link_groups g))"
  shows "fst le \<in> fst ` set (node_entries g) \<and> fst (snd le) \<in> fst ` set (node_entries g)"
proof -
  from wf have d: "distinct (node_ids g)" and de: "distinct (map eseq (edges g))"
    by (simp_all add: wf_graph_def)
  note p = node_order_props [OF d]
  from le obtain x e where x: "x \<in> set (node_order g)" and e: "e \<in> set (out_edges g (nseq x))"
    and eq: "le = link_entry g x e"
    by (auto simp: link_groups_def)
  from x have "node_entry x \<in> set (node_entries g)" by (simp add: node_entries_def)
  moreover have "fst le = fst (node_entry x)" by (simp add: eq link_entry_def node_entry_def)
  ultimately have 1: "fst le \<in> fst ` set (node_entries g)" by (metis imageI)
  from e out_edges_props(2) [OF de] have "e \<in> set (edges g)" by auto
  with wf have "live g (ehead e)" by (simp add: wf_graph_def)
  then obtain y where y: "find_node g (ehead e) = Some y"
    by (cases "find_node g (ehead e)") (auto simp: find_node_None)
  then have "y \<in> set (node_order g)" using p(2) by (auto dest: find_node_Some)
  then have "node_entry y \<in> set (node_entries g)" by (simp add: node_entries_def)
  moreover from y have "fst (snd le) = fst (node_entry y)"
    by (simp add: eq link_entry_def node_entry_def head_label_def)
  ultimately have 2: "fst (snd le) \<in> fst ` set (node_entries g)" by (metis imageI)
  from 1 2 show ?thesis ..
qed

lemma json_scan_plain: "plain s \<Longrightarrow> json_scan Inside (s @ rest) = json_scan Inside rest"
  by (induction s) (auto simp: plain_def)

lemma node_object_one:
  assumes "plain (fst ne)" and "plain (snd ne)"
  shows "json_scan Outside (node_object_text ne @ rest) = Suc (json_scan Outside rest)"
  using assms by (simp add: node_object_text_def dq_def json_scan_plain)

lemma link_object_one:
  assumes "plain (fst le)" and "plain (fst (snd le))" and "plain (snd (snd le))"
  shows "json_scan Outside (link_object_text le @ rest) = Suc (json_scan Outside rest)"
  using assms by (simp add: link_object_text_def dq_def json_scan_plain)

lemma object_lines_count:
  "(\<And>ob rest. ob \<in> set obs \<Longrightarrow> json_scan Outside (ob @ rest) = Suc (json_scan Outside rest)) \<Longrightarrow>
   object_lines obs seg \<Longrightarrow> json_objects seg = length obs"
proof (induction obs arbitrary: seg)
  case Nil
  then show ?case by (simp add: json_objects_def)
next
  case (Cons ob obs)
  from Cons.prems(2) obtain sep rest where s: "sep = [] \<or> sep = '',''"
    "seg = ob @ sep @ nl @ rest" "object_lines obs rest"
    unfolding object_lines_Cons by blast
  from Cons.IH [OF Cons.prems(1) s(3)] have "json_scan Outside rest = length obs"
    by (simp add: json_objects_def)
  moreover from s(1) have "json_scan Outside (sep @ nl @ rest) = json_scan Outside rest"
    by (auto simp: nl_def)
  ultimately show ?case using Cons.prems(1) [of ob "sep @ nl @ rest"] s(2)
    by (simp add: json_objects_def)
qed

lemma emitter_lines:
  assumes wf: "wf_graph g" and al: "all_labels g" and af: "all_files g"
  shows "\<exists>out ns ls. graph_print_d3_arc g = Inr out \<and>
    stdout_text out = d3_open @ ns @ d3_mid @ ls @ d3_close \<and>
    object_lines (map node_object_text (node_entries g)) ns \<and>
    object_lines (map link_object_text (concat (link_groups g))) ls \<and>
    (plain_fields g \<longrightarrow>
       json_objects ns = length (nodes g) \<and> json_objects ls = length (edges g))"
proof -
  let ?ns = "node_text (node_entries g)" and ?ls = "group_text (link_groups g)"
  from emitter_text [OF assms] obtain out where run: "graph_print_d3_arc g = Inr out"
    and shape: "stdout_text out = d3_open @ ?ns @ d3_mid @ ?ls @ d3_close"
    by (auto simp: d3_arc_text_def)
  note n = node_text_lines [of "node_entries g"]
  note l = group_text_lines [of "link_groups g"]
  have "json_objects ?ns = length (nodes g) \<and> json_objects ?ls = length (edges g)"
    if pl: "plain_fields g"
  proof
    from pl have "json_objects ?ns = length (map node_object_text (node_entries g))"
      by (intro object_lines_count [OF _ n]) (auto simp: plain_fields_def intro!: node_object_one)
    then show "json_objects ?ns = length (nodes g)" by (simp add: node_entries_length)
  next
    from pl have "json_objects ?ls = length (map link_object_text (concat (link_groups g)))"
      by (intro object_lines_count [OF _ l]) (auto simp: plain_fields_def intro!: link_object_one)
    then show "json_objects ?ls = length (edges g)"
      using link_groups_length [OF wf] by simp
  qed
  with run shape n l show ?thesis by blast
qed

text \<open>
  In function mode the document stands alone on standard output. The comma after a link
  is printed when another node follows, whether or not that node has an out-edge: here
  the only link is followed by a comma and the closing bracket.
\<close>

lemma function_mode_output:
  "process_graph NODE_TYPE_FUNCTION FORMAT_TYPE_D3_ARC ex_inter =
     Finished
      [Lit (''{'' @ nl), Lit (''  '' @ dq @ ''nodes'' @ dq @ '': ['' @ nl),
       NodeObj ''A'' ''a'', Lit '','', Lit nl, NodeObj ''B'' ''b'', Lit nl,
       Lit (''  ],'' @ nl), Lit (''  '' @ dq @ ''links'' @ dq @ '': ['' @ nl),
       LinkObj ''A'' ''B'' ''3'', Lit '','', Lit nl,
       Lit (''  ]'' @ nl), Lit (''}'' @ nl)]"
  by code_simp

subsection \<open>The objects and the fields of the document\<close>

text \<open>
  C5, as the specification states it: for a graph with \<open>k\<close> nodes the document has
  exactly \<open>k\<close> objects in its \<open>nodes\<close> array. The emitter writes the strings
  as they are, without escaping: for the graph of one node whose label holds quote
  characters and braces, the text between the lines around the \<open>nodes\<close> array holds
  two objects.
\<close>

theorem quoted_label_counterexample:
  "graph_print_d3_arc ex_quoted_label = Inr ex_quoted_label_out \<and>
   stdout_text ex_quoted_label_out = d3_open @ ex_quoted_label_nodes @ d3_mid @ d3_close \<and>
   json_objects ex_quoted_label_nodes = 2 \<and>
   length (nodes ex_quoted_label) = 1"
  by code_simp

text \<open>
  C5, amended: for a well-formed graph with \<open>k\<close> nodes and \<open>m\<close> edges in which
  every node has a \<open>label\<close> and a \<open>file\<close>, the emitter writes the opening lines,
  \<open>k\<close> lines that each hold the object of one node and a comma or none, the lines
  between the two arrays, \<open>m\<close> lines that each hold the object of one edge and a comma
  or none, and the closing lines; the \<open>source\<close> and the \<open>target\<close> of every link
  object are the \<open>id\<close> of a node object; and when no printed string holds a quote or
  a backslash, the text of the \<open>nodes\<close> array holds exactly \<open>k\<close> objects and the
  text of the \<open>links\<close> array exactly \<open>m\<close>.
\<close>

theorem emitter_object_lines:
  assumes "wf_graph g" and "all_labels g" and "all_files g"
  shows "\<exists>out ns ls. graph_print_d3_arc g = Inr out \<and>
    stdout_text out = d3_open @ ns @ d3_mid @ ls @ d3_close \<and>
    object_lines (map node_object_text (node_entries g)) ns \<and>
    object_lines (map link_object_text (concat (link_groups g))) ls \<and>
    length (node_entries g) = length (nodes g) \<and>
    length (concat (link_groups g)) = length (edges g) \<and>
    (\<forall>le \<in> set (concat (link_groups g)).
       fst le \<in> fst ` set (node_entries g) \<and> fst (snd le) \<in> fst ` set (node_entries g)) \<and>
    (plain_fields g \<longrightarrow>
       json_objects ns = length (nodes g) \<and> json_objects ls = length (edges g))"
  using emitter_lines [OF assms] node_entries_length [of g] link_groups_length [OF assms(1)]
    link_ends_are_ids [OF assms(1)]
  by blast

theorem emitter_object_lines_witness:
  "wf_graph ex_spec_reduced \<and> all_labels ex_spec_reduced \<and> all_files ex_spec_reduced \<and>
   plain_fields ex_spec_reduced \<and>
   graph_print_d3_arc ex_spec_reduced = Inr ex_spec_reduced_out \<and>
   node_entries ex_spec_reduced = [(''B'', ''a''), (''C'', ''b'')] \<and>
   concat (link_groups ex_spec_reduced) = [(''B'', ''C'', ''7'')] \<and>
   (\<exists>ns ls. stdout_text ex_spec_reduced_out = d3_open @ ns @ d3_mid @ ls @ d3_close \<and>
      object_lines [node_object_text (''B'', ''a''), node_object_text (''C'', ''b'')] ns \<and>
      object_lines [link_object_text (''B'', ''C'', ''7'')] ls \<and>
      json_objects ns = 2 \<and> json_objects ls = 1)"
proof -
  have h: "wf_graph ex_spec_reduced" "all_labels ex_spec_reduced" "all_files ex_spec_reduced"
    by code_simp+
  have pl: "plain_fields ex_spec_reduced" by code_simp
  have run: "graph_print_d3_arc ex_spec_reduced = Inr ex_spec_reduced_out" by code_simp
  have n: "node_entries ex_spec_reduced = [(''B'', ''a''), (''C'', ''b'')]" by code_simp
  have l: "concat (link_groups ex_spec_reduced) = [(''B'', ''C'', ''7'')]" by code_simp
  have c: "length (nodes ex_spec_reduced) = 2" "length (edges ex_spec_reduced) = 1"
    by code_simp+
  from emitter_object_lines [OF h] pl run
  have "\<exists>ns ls. stdout_text ex_spec_reduced_out = d3_open @ ns @ d3_mid @ ls @ d3_close \<and>
      object_lines (map node_object_text (node_entries ex_spec_reduced)) ns \<and>
      object_lines (map link_object_text (concat (link_groups ex_spec_reduced))) ls \<and>
      json_objects ns = length (nodes ex_spec_reduced) \<and>
      json_objects ls = length (edges ex_spec_reduced)"
    by auto
  then have "\<exists>ns ls. stdout_text ex_spec_reduced_out = d3_open @ ns @ d3_mid @ ls @ d3_close \<and>
      object_lines [node_object_text (''B'', ''a''), node_object_text (''C'', ''b'')] ns \<and>
      object_lines [link_object_text (''B'', ''C'', ''7'')] ls \<and>
      json_objects ns = 2 \<and> json_objects ls = 1"
    unfolding n l c list.map .
  with h pl run n l show ?thesis by blast
qed

text \<open>
  C6, amended: for a well-formed graph in which every node has a \<open>label\<close> and a
  \<open>file\<close>, each shorter than \<open>2^31\<close> bytes, the text the emitter writes is the
  document with one object for each node, in the order of the nodes, whose \<open>id\<close> is
  the stored label without its first and its last character and whose \<open>group\<close> is the
  stored file without its first and its last three characters, \<open>NONE\<close> for the empty
  file; and with one object for each out-edge of each node, whose \<open>source\<close> is the
  label of that node and whose \<open>target\<close> is the label of the head of the edge, both
  without their first and last character, and whose \<open>value\<close> is the stored weight.
\<close>

theorem emitter_field_strings:
  assumes "wf_graph g" and "all_labels g" and "all_files g" and "short_attrs g"
  shows "\<exists>out. graph_print_d3_arc g = Inr out \<and>
    stdout_text out =
      d3_arc_text (map stripped_node (node_order g))
        (map (\<lambda>x. map (stripped_link g x) (out_edges g (nseq x))) (node_order g))"
  using assms by (rule emitter_text_short)

theorem emitter_field_strings_witness:
  "wf_graph ex_spec_reduced \<and> all_labels ex_spec_reduced \<and> all_files ex_spec_reduced \<and>
   short_attrs ex_spec_reduced \<and>
   graph_print_d3_arc ex_spec_reduced = Inr ex_spec_reduced_out \<and>
   stdout_text ex_spec_reduced_out =
     d3_arc_text [(''B'', ''a''), (''C'', ''b'')] [[(''B'', ''C'', ''7'')], []]"
proof -
  have h: "wf_graph ex_spec_reduced" "all_labels ex_spec_reduced" "all_files ex_spec_reduced"
    by code_simp+
  have sh: "short_attrs ex_spec_reduced"
    by (simp add: short_attrs_def ex_spec_reduced_def mk_node_def attr_def quoted_def dq_def)
  have run: "graph_print_d3_arc ex_spec_reduced = Inr ex_spec_reduced_out" by code_simp
  have n: "map stripped_node (node_order ex_spec_reduced) = [(''B'', ''a''), (''C'', ''b'')]"
    by code_simp
  have l: "map (\<lambda>x. map (stripped_link ex_spec_reduced x) (out_edges ex_spec_reduced (nseq x)))
      (node_order ex_spec_reduced) = [[(''B'', ''C'', ''7'')], []]"
    by code_simp
  from emitter_field_strings [OF h sh] run
  have "stdout_text ex_spec_reduced_out =
     d3_arc_text (map stripped_node (node_order ex_spec_reduced))
       (map (\<lambda>x. map (stripped_link ex_spec_reduced x) (out_edges ex_spec_reduced (nseq x)))
          (node_order ex_spec_reduced))"
    by auto
  then have "stdout_text ex_spec_reduced_out =
     d3_arc_text [(''B'', ''a''), (''C'', ''b'')] [[(''B'', ''C'', ''7'')], []]"
    unfolding n l .
  with h sh run show ?thesis by blast
qed

end
